theory Spec2Isabelle
  imports Main "HOL-Library.Word" "HOL-Library.Signed_Division"
begin

unbundle bit_operations_syntax

section \<open>Conventions\<close>

text \<open>
  The development embeds \<^verbatim>\<open>kernel/net.c\<close> and \<^verbatim>\<open>kernel/e1000.c\<close>.
  A C \<^verbatim>\<open>int\<close> that is only compared and assigned is an \<open>int\<close>; the cursors of a
  delivery queue are \<^verbatim>\<open>uint32\<close> and are \<open>32 word\<close>, so that \<open>+\<close> and \<open>-\<close> wrap;
  the drop counter, an \<^verbatim>\<open>int\<close> that is only incremented, is a \<open>32 word\<close> too.
  A kernel address is a \<open>nat\<close>, a byte an \<open>8 word\<close>.  A \<^verbatim>\<open>panic\<close> and an access outside an array are results of their
  own: every function that can reach one returns \<open>fault + _\<close>.
\<close>

datatype fault = Panic | OutOfBounds

section \<open>Delivery queues\<close>

definition MAX_QUEUE_LEN :: nat where
  "MAX_QUEUE_LEN = 16"

record packet =
  buf :: nat
  sport :: int
  len :: int

record bind_ring_buffer =
  queue :: "packet list"
  read_c :: "32 word"
  write_c :: "32 word"
  dropped :: "32 word"
  dport :: int

definition zero_packet :: packet where
  "zero_packet = \<lparr>buf = 0, sport = 0, len = 0\<rparr>"

definition ring_init :: "bind_ring_buffer \<Rightarrow> bind_ring_buffer" where
  "ring_init ring =
     ring\<lparr>queue := replicate MAX_QUEUE_LEN zero_packet, read_c := 0, write_c := 0, dropped := 0\<rparr>"

text \<open>\<^verbatim>\<open>int ring_mod(int num) { return num % MAX_QUEUE_LEN; }\<close>: the remainder of C
  truncates towards zero, so it has the sign of \<open>num\<close>.\<close>

definition ring_mod :: "int \<Rightarrow> int" where
  "ring_mod num = num smod int MAX_QUEUE_LEN"

definition ring_empty :: "bind_ring_buffer \<Rightarrow> bool" where
  "ring_empty ring \<longleftrightarrow> write_c ring = read_c ring"

text \<open>The difference of the two \<^verbatim>\<open>uint32\<close> cursors, returned as an \<^verbatim>\<open>int\<close>.\<close>

definition ring_size :: "bind_ring_buffer \<Rightarrow> int" where
  "ring_size ring = sint (write_c ring - read_c ring)"

definition ring_full :: "bind_ring_buffer \<Rightarrow> bool" where
  "ring_full ring \<longleftrightarrow> ring_size ring = int MAX_QUEUE_LEN"

text \<open>The slot \<^verbatim>\<open>ring->queue[ring_mod(cursor)]\<close>: the \<^verbatim>\<open>uint32\<close> cursor is passed to an
  \<^verbatim>\<open>int\<close> parameter, which reads it as two's complement; an index outside
  \<open>0 ..< MAX_QUEUE_LEN\<close> is an access outside the array.\<close>

definition ring_slot :: "32 word \<Rightarrow> fault + nat" where
  "ring_slot cursor =
     (let i = ring_mod (sint cursor)
      in if 0 \<le> i \<and> i < int MAX_QUEUE_LEN then Inr (nat i) else Inl OutOfBounds)"

definition ring_enqueue :: "bind_ring_buffer \<Rightarrow> packet \<Rightarrow> fault + (int \<times> bind_ring_buffer)" where
  "ring_enqueue ring p =
     (if ring_full ring then Inr (1, ring\<lparr>dropped := dropped ring + 1\<rparr>)
      else case ring_slot (write_c ring) of
             Inl f \<Rightarrow> Inl f
           | Inr i \<Rightarrow> Inr (0, ring\<lparr>queue := (queue ring)[i := p], write_c := write_c ring + 1\<rparr>))"

text \<open>\<open>ring_dequeue\<close> returns 1 and leaves \<^verbatim>\<open>*packet\<close> alone on an empty queue (\<open>None\<close>),
  and 0 with the packet otherwise.\<close>

definition ring_dequeue :: "bind_ring_buffer \<Rightarrow> fault + (packet option \<times> bind_ring_buffer)" where
  "ring_dequeue ring =
     (if ring_empty ring then Inr (None, ring)
      else case ring_slot (read_c ring) of
             Inl f \<Rightarrow> Inl f
           | Inr i \<Rightarrow> Inr (Some (queue ring ! i), ring\<lparr>read_c := read_c ring + 1\<rparr>))"

text \<open>A series of deliveries to one queue, with the status of each, and a series of
  retrievals from it.\<close>

fun ring_enqueue_all :: "bind_ring_buffer \<Rightarrow> packet list \<Rightarrow> fault + (int list \<times> bind_ring_buffer)" where
  "ring_enqueue_all ring [] = Inr ([], ring)"
| "ring_enqueue_all ring (p # ps) =
     (case ring_enqueue ring p of
        Inl f \<Rightarrow> Inl f
      | Inr (rc, ring') \<Rightarrow>
          (case ring_enqueue_all ring' ps of
             Inl f \<Rightarrow> Inl f
           | Inr (rcs, ring'') \<Rightarrow> Inr (rc # rcs, ring'')))"

fun ring_dequeue_n :: "nat \<Rightarrow> bind_ring_buffer \<Rightarrow> fault + (packet option list \<times> bind_ring_buffer)" where
  "ring_dequeue_n 0 ring = Inr ([], ring)"
| "ring_dequeue_n (Suc n) ring =
     (case ring_dequeue ring of
        Inl f \<Rightarrow> Inl f
      | Inr (p, ring') \<Rightarrow>
          (case ring_dequeue_n n ring' of
             Inl f \<Rightarrow> Inl f
           | Inr (ps, ring'') \<Rightarrow> Inr (p # ps, ring'')))"

text \<open>The entries of a queue that were enqueued and not yet dequeued, oldest first: the
  slots of the cursors \<open>read_c\<close>, \<open>read_c + 1\<close> and so on, below \<open>write_c\<close>.  A queue is in
  order when its array has its declared length, it holds at most \<open>MAX_QUEUE_LEN\<close>
  entries, and the cursors of its entries lie below \<open>2 ^ 31\<close>.\<close>

definition ring_live :: "bind_ring_buffer \<Rightarrow> packet list" where
  "ring_live ring =
     map (\<lambda>k. queue ring ! (unat (read_c ring + of_nat k) mod MAX_QUEUE_LEN))
       [0 ..< unat (write_c ring - read_c ring)]"

definition ring_ok :: "bind_ring_buffer \<Rightarrow> bool" where
  "ring_ok ring \<longleftrightarrow>
     length (queue ring) = MAX_QUEUE_LEN \<and>
     unat (write_c ring - read_c ring) \<le> MAX_QUEUE_LEN \<and>
     unat (read_c ring) + unat (write_c ring - read_c ring) \<le> 2 ^ 31"

text \<open>A full queue whose read cursor is \<^verbatim>\<open>0x80000001\<close> and whose write cursor is 16 further.\<close>

definition wrapped_full_ring :: bind_ring_buffer where
  "wrapped_full_ring =
     \<lparr>queue = replicate MAX_QUEUE_LEN zero_packet, read_c = 0x80000001, write_c = 0x80000011,
      dropped = 0, dport = 0\<rparr>"

section \<open>The port table\<close>

definition RINGS_NUM :: nat where
  "RINGS_NUM = 100"

text \<open>The table \<^verbatim>\<open>rings[RINGS_NUM]\<close> is the list of its slots, in the order of their
  indices.  It is static and starts as \<^verbatim>\<open>{0}\<close>: every field of every slot is zero.  The
  spinlock of a slot is not modelled.\<close>

definition zero_ring :: bind_ring_buffer where
  "zero_ring = \<lparr>queue = replicate MAX_QUEUE_LEN zero_packet, read_c = 0, write_c = 0,
                 dropped = 0, dport = 0\<rparr>"

fun find_dport :: "bind_ring_buffer list \<Rightarrow> int \<Rightarrow> nat \<Rightarrow> nat option" where
  "find_dport [] port i = None"
| "find_dport (r # rs) port i = (if dport r = port then Some i else find_dport rs port (Suc i))"

text \<open>\<open>find_ring\<close> returns the index of the first slot whose \<open>dport\<close> is the port asked
  for, \<open>None\<close> for the null pointer.\<close>

definition find_ring :: "bind_ring_buffer list \<Rightarrow> int \<Rightarrow> nat option" where
  "find_ring rs port = find_dport rs port 0"

text \<open>\<open>next_free_ring\<close> claims the first slot whose \<open>dport\<close> is 0, and panics when there is
  none.\<close>

definition next_free_ring :: "bind_ring_buffer list \<Rightarrow> int \<Rightarrow> fault + (nat \<times> bind_ring_buffer list)" where
  "next_free_ring rs port =
     (case find_dport rs 0 0 of
        None \<Rightarrow> Inl Panic
      | Some i \<Rightarrow> Inr (i, rs[i := (rs ! i)\<lparr>dport := port\<rparr>]))"

section \<open>Kernel memory and byte order\<close>

type_synonym memory = "nat \<Rightarrow> 8 word"

text \<open>Loads and stores of the little-endian RISC-V machine; a \<^verbatim>\<open>uint16\<close> or \<^verbatim>\<open>uint32\<close> value
  is a \<open>nat\<close>.\<close>

definition load16 :: "memory \<Rightarrow> nat \<Rightarrow> nat" where
  "load16 m a = unat (m a) + 256 * unat (m (a + 1))"

definition load32 :: "memory \<Rightarrow> nat \<Rightarrow> nat" where
  "load32 m a = load16 m a + 65536 * load16 m (a + 2)"

definition store8 :: "memory \<Rightarrow> nat \<Rightarrow> nat \<Rightarrow> memory" where
  "store8 m a v = m(a := of_nat v)"

definition store16 :: "memory \<Rightarrow> nat \<Rightarrow> nat \<Rightarrow> memory" where
  "store16 m a v = store8 (store8 m a v) (a + 1) (v div 256)"

definition store32 :: "memory \<Rightarrow> nat \<Rightarrow> nat \<Rightarrow> memory" where
  "store32 m a v = store16 (store16 m a v) (a + 2) (v div 65536)"

definition memmove :: "memory \<Rightarrow> nat \<Rightarrow> nat \<Rightarrow> nat \<Rightarrow> memory" where
  "memmove m dst src n = (\<lambda>x. if dst \<le> x \<and> x < dst + n then m (src + (x - dst)) else m x)"

definition store_bytes :: "memory \<Rightarrow> nat \<Rightarrow> 8 word list \<Rightarrow> memory" where
  "store_bytes m dst bs = (\<lambda>x. if dst \<le> x \<and> x < dst + length bs then bs ! (x - dst) else m x)"

definition mem_read :: "memory \<Rightarrow> nat \<Rightarrow> nat \<Rightarrow> 8 word list" where
  "mem_read m a n = map (\<lambda>i. m (a + i)) [0 ..< n]"

definition ntohs :: "nat \<Rightarrow> nat" where
  "ntohs x = (x mod 256) * 256 + (x div 256) mod 256"

definition htons :: "nat \<Rightarrow> nat" where
  "htons x = ntohs x"

definition ntohl :: "nat \<Rightarrow> nat" where
  "ntohl x = (x mod 256) * 16777216 + ((x div 256) mod 256) * 65536
           + ((x div 65536) mod 256) * 256 + (x div 16777216) mod 256"

definition htonl :: "nat \<Rightarrow> nat" where
  "htonl x = ntohl x"

text \<open>The \<open>n\<close> low bytes of a C integer, as they lie in memory.\<close>

definition le_bytes :: "nat \<Rightarrow> int \<Rightarrow> 8 word list" where
  "le_bytes n v = map (\<lambda>i. word_of_int (v div 256 ^ i)) [0 ..< n]"

text \<open>An \<^verbatim>\<open>int\<close> converted to \<^verbatim>\<open>size_t\<close> or \<^verbatim>\<open>uint64\<close>.\<close>

definition to_uint64 :: "int \<Rightarrow> nat" where
  "to_uint64 v = nat (v mod 2 ^ 64)"

section \<open>Protocol headers\<close>

text \<open>
  Modelled from the spec: \<^verbatim>\<open>net.h\<close>, which declares the packed header structures and the
  protocol constants, is not among the sources.  Sizes, field offsets and constants follow
  the wire formats of the specification (section 6): an Ethernet header of 14 bytes with
  the type in bytes 12 and 13; an ARP packet of 28 bytes (hardware type, protocol type,
  hardware length, protocol length, operation, sender MAC and IP, target MAC and IP); an
  IP header of 20 bytes with the version and header length in byte 0 and the source
  address in bytes 12 to 15; a UDP header of 8 bytes (source port, destination port,
  length, checksum).  Ethernet is hardware type 1; operation 2 is the ARP reply.
\<close>

definition ETHADDR_LEN :: nat where "ETHADDR_LEN = 6"
definition sizeof_eth :: nat where "sizeof_eth = 14"
definition sizeof_arp :: nat where "sizeof_arp = 28"
definition sizeof_ip :: nat where "sizeof_ip = 20"
definition sizeof_udp :: nat where "sizeof_udp = 8"

definition ETHTYPE_IP :: nat where "ETHTYPE_IP = 0x0800"
definition ETHTYPE_ARP :: nat where "ETHTYPE_ARP = 0x0806"
definition ARP_HRD_ETHER :: nat where "ARP_HRD_ETHER = 1"
definition ARP_OP_REPLY :: nat where "ARP_OP_REPLY = 2"

definition eth_dhost :: nat where "eth_dhost = 0"
definition eth_shost :: nat where "eth_shost = 6"
definition eth_type :: nat where "eth_type = 12"

definition arp_hrd :: nat where "arp_hrd = 0"
definition arp_pro :: nat where "arp_pro = 2"
definition arp_hln :: nat where "arp_hln = 4"
definition arp_pln :: nat where "arp_pln = 5"
definition arp_op :: nat where "arp_op = 6"
definition arp_sha :: nat where "arp_sha = 8"
definition arp_sip :: nat where "arp_sip = 14"
definition arp_tha :: nat where "arp_tha = 18"
definition arp_tip :: nat where "arp_tip = 24"

definition ip_vhl :: nat where "ip_vhl = 0"
definition ip_sum :: nat where "ip_sum = 10"
definition ip_src :: nat where "ip_src = 12"

definition udp_sport :: nat where "udp_sport = 0"
definition udp_dport :: nat where "udp_dport = 2"
definition udp_ulen :: nat where "udp_ulen = 4"

definition local_mac :: "8 word list" where
  "local_mac = [0x52, 0x54, 0x00, 0x12, 0x34, 0x56]"

text \<open>\<^verbatim>\<open>MAKE_IP_ADDR(10, 0, 2, 15)\<close>\<close>

definition local_ip :: nat where
  "local_ip = 10 * 16777216 + 0 * 65536 + 2 * 256 + 15"


section \<open>The state of the network stack and of the driver\<close>

text \<open>
  Modelled from the spec: \<^verbatim>\<open>e1000_dev.h\<close>, which declares the descriptor structures, the
  register offsets and the bit masks of the device, is not among the sources.  A
  descriptor is the record of the specification (section 3): a buffer address, a length, a
  status and, for transmission, command bits.  A register is addressed by its name, and
  the values that the header gives to the macros used by \<^verbatim>\<open>e1000.c\<close> are the fields of
  \<open>e1000_dev\<close>, a parameter of the driver's functions.
\<close>

record tx_desc =
  tx_addr :: nat
  tx_length :: nat
  tx_cmd :: "8 word"
  tx_status :: "8 word"

record rx_desc =
  rx_addr :: nat
  rx_length :: nat
  rx_status :: "8 word"

datatype reg =
    E1000_CTL | E1000_ICR | E1000_IMS | E1000_RCTL | E1000_TCTL | E1000_TIPG
  | E1000_RDBAL | E1000_RDTR | E1000_RADV | E1000_RDH | E1000_RDT | E1000_RDLEN
  | E1000_TDBAL | E1000_TDLEN | E1000_TDH | E1000_TDT
  | E1000_MTA nat | E1000_RA nat

record e1000_dev =
  TX_RING_SIZE :: nat
  sizeof_tx_desc :: nat
  sizeof_rx_desc :: nat
  tx_ring_base :: nat
  rx_ring_base :: nat
  E1000_CTL_RST :: "32 word"
  E1000_TXD_STAT_DD :: "8 word"
  E1000_RXD_STAT_DD :: "8 word"
  E1000_RXD_STAT_EOP :: "8 word"
  E1000_TCTL_EN :: "32 word"
  E1000_TCTL_PSP :: "32 word"
  E1000_TCTL_CT_SHIFT :: nat
  E1000_TCTL_COLD_SHIFT :: nat
  E1000_RCTL_EN :: "32 word"
  E1000_RCTL_BAM :: "32 word"
  E1000_RCTL_SZ_2048 :: "32 word"
  E1000_RCTL_SECRC :: "32 word"

definition RX_RING_SIZE :: nat where
  "RX_RING_SIZE = 16"

text \<open>
  The state that \<^verbatim>\<open>net.c\<close> and \<^verbatim>\<open>e1000.c\<close> read and write: kernel memory, the port
  table, the two function-local flags \<open>seen_arp\<close> and \<open>seen_ip\<close>, the descriptor rings and
  buffer tables of the driver, and the device registers.  Three fields record what the
  code does to its collaborators: \<open>freed\<close> is the list of the addresses passed to
  \<^verbatim>\<open>kfree\<close>, in order; \<open>kalloc_pool\<close> holds the results of the coming calls of
  \<^verbatim>\<open>kalloc\<close>; \<open>sent\<close> is the list of the frames passed to \<^verbatim>\<open>e1000_transmit\<close>.
\<close>

record kstate =
  mem :: memory
  rings :: "bind_ring_buffer list"
  seen_arp :: bool
  seen_ip :: bool
  freed :: "nat list"
  kalloc_pool :: "nat list"
  sent :: "(nat \<times> nat \<times> 8 word list) list"
  tx_accepts :: bool
  tx_ring :: "tx_desc list"
  tx_bufs :: "nat list"
  rx_ring :: "rx_desc list"
  rx_bufs :: "nat list"
  regs :: "reg \<Rightarrow> 32 word"

text \<open>
  Modelled from the spec: the page allocator (\<^verbatim>\<open>kalloc\<close>, \<^verbatim>\<open>kfree\<close>) is an external
  collaborator, the capability to allocate and to free a page (section 1).  \<open>kalloc\<close>
  returns the next address of \<open>kalloc_pool\<close>, or the null pointer 0 when the pool is
  exhausted; an entry 0 of the pool is an allocation that fails.  \<open>kfree\<close> is recorded.
\<close>

definition kalloc :: "kstate \<Rightarrow> nat \<times> kstate" where
  "kalloc s = (case kalloc_pool s of [] \<Rightarrow> (0, s) | a # as \<Rightarrow> (a, s\<lparr>kalloc_pool := as\<rparr>))"

definition kfree :: "kstate \<Rightarrow> nat \<Rightarrow> kstate" where
  "kfree s a = s\<lparr>freed := freed s @ [a]\<rparr>"

text \<open>
  Modelled from the spec: \<^verbatim>\<open>e1000_transmit\<close> is declared in \<^verbatim>\<open>e1000.c\<close> and defined
  elsewhere.  By the specification (section 4.2) \<open>transmit(buffer, length)\<close> hands the frame
  to the transmit ring, reports success or failure and does not block.  The frame handed
  over is recorded with its bytes; the report is 0 when the ring accepts it, \<open>-1\<close>
  otherwise.
\<close>

definition e1000_transmit :: "kstate \<Rightarrow> nat \<Rightarrow> nat \<Rightarrow> int \<times> kstate" where
  "e1000_transmit s b n =
     (if tx_accepts s then 0 else - 1, s\<lparr>sent := sent s @ [(b, n, mem_read (mem s) b n)]\<rparr>)"

section \<open>Receiving frames\<close>

text \<open>\<open>ip_rx\<close>: the UDP header is taken at \<^verbatim>\<open>(struct udp *)(ip + 1)\<close>, the queue is looked up
  by its destination port, and the buffer is either released or queued.  The wakeup of
  the sleeping receivers changes nothing of this state.\<close>

definition ip_rx :: "kstate \<Rightarrow> nat \<Rightarrow> int \<Rightarrow> fault + kstate" where
  "ip_rx s b n =
     (let s1 = s\<lparr>seen_ip := True\<rparr>;
          ip = b + sizeof_eth;
          udp = ip + sizeof_ip;
          port = int (ntohs (load16 (mem s1) (udp + udp_dport)))
      in case find_ring (rings s1) port of
           None \<Rightarrow> Inr (kfree s1 b)
         | Some i \<Rightarrow>
             (let p = \<lparr>buf = b, sport = int (ntohs (load16 (mem s1) (udp + udp_sport))), len = n\<rparr>
              in case ring_enqueue (rings s1 ! i) p of
                   Inl f \<Rightarrow> Inl f
                 | Inr (rc, ring') \<Rightarrow>
                     (let s2 = s1\<lparr>rings := (rings s1)[i := ring']\<rparr>
                      in Inr (if rc \<noteq> 0 then kfree s2 b else s2))))"

text \<open>\<open>arp_rx\<close>: after the first call every buffer is released at once; the first call
  builds the reply in a fresh page, hands it to the driver and releases the buffer.\<close>

definition arp_rx :: "kstate \<Rightarrow> nat \<Rightarrow> fault + kstate" where
  "arp_rx s inbuf =
     (if seen_arp s then Inr (kfree s inbuf)
      else
        (let s1 = s\<lparr>seen_arp := True\<rparr>;
             ineth = inbuf;
             inarp = ineth + sizeof_eth;
             (b, s2) = kalloc s1
         in if b = 0 then Inl Panic
            else
              (let eth = b;
                   m1 = memmove (mem s2) (eth + eth_dhost) (ineth + eth_shost) ETHADDR_LEN;
                   m2 = store_bytes m1 (eth + eth_shost) local_mac;
                   m3 = store16 m2 (eth + eth_type) (htons ETHTYPE_ARP);
                   arp = eth + sizeof_eth;
                   m4 = store16 m3 (arp + arp_hrd) (htons ARP_HRD_ETHER);
                   m5 = store16 m4 (arp + arp_pro) (htons ETHTYPE_IP);
                   m6 = store8 m5 (arp + arp_hln) ETHADDR_LEN;
                   m7 = store8 m6 (arp + arp_pln) 4;
                   m8 = store16 m7 (arp + arp_op) (htons ARP_OP_REPLY);
                   m9 = store_bytes m8 (arp + arp_sha) local_mac;
                   m10 = store32 m9 (arp + arp_sip) (htonl local_ip);
                   m11 = memmove m10 (arp + arp_tha) (ineth + eth_shost) ETHADDR_LEN;
                   m12 = store32 m11 (arp + arp_tip) (load32 m11 (inarp + arp_sip));
                   (rc, s3) = e1000_transmit (s2\<lparr>mem := m12\<rparr>) b (sizeof_eth + sizeof_arp)
               in Inr (kfree s3 inbuf))))"

text \<open>\<open>net_rx\<close>: the length, an \<^verbatim>\<open>int\<close>, is compared with a \<^verbatim>\<open>size_t\<close> sum.\<close>

definition net_rx :: "kstate \<Rightarrow> nat \<Rightarrow> int \<Rightarrow> fault + kstate" where
  "net_rx s b n =
     (let eth = b;
          ty = ntohs (load16 (mem s) (eth + eth_type))
      in if sizeof_eth + sizeof_arp \<le> to_uint64 n \<and> ty = ETHTYPE_ARP then arp_rx s b
         else if sizeof_eth + sizeof_ip \<le> to_uint64 n \<and> ty = ETHTYPE_IP then ip_rx s b n
         else Inr (kfree s b))"


section \<open>System calls\<close>

text \<open>\<open>sys_bind\<close> claims a slot, resets its queue and returns 1.\<close>

definition sys_bind :: "kstate \<Rightarrow> int \<Rightarrow> fault + (64 word \<times> kstate)" where
  "sys_bind s port =
     (case next_free_ring (rings s) port of
        Inl f \<Rightarrow> Inl f
      | Inr (i, rs) \<Rightarrow> Inr (1, s\<lparr>rings := rs[i := ring_init (rs ! i)]\<rparr>))"

text \<open>\<^verbatim>\<open>uint8 ihl = (ip->ip_vhl & 0x0F) * 4\<close>: the length of the IP header in bytes.\<close>

definition ip_ihl :: "memory \<Rightarrow> nat \<Rightarrow> nat" where
  "ip_ihl m ip = (unat (m (ip + ip_vhl) AND 0x0F) * 4) mod 256"

text \<open>
  \<open>sys_recv\<close>.  The copy to the caller's address space, \<^verbatim>\<open>copyout\<close>, belongs to the
  virtual-memory code and is a parameter: from a user memory \<open>'u\<close>, a destination address
  and the bytes to copy it gives its status (0, or \<open>-1\<close> when the destination is not
  mapped) and the user memory after the copy.  On an empty queue the caller sleeps on the
  queue until \<open>ip_rx\<close> wakes it up and then tests the queue again: the outcome
  \<open>Recv_Sleep\<close> is the call that has not returned.  The arguments are those that
  \<^verbatim>\<open>argint\<close> and \<^verbatim>\<open>argaddr\<close> fetch; the spinlocks are not modelled.
\<close>

datatype 'u recv_result = Recv_Sleep | Recv_Fault fault | Recv_Return "64 word" kstate 'u

definition sys_recv ::
  "('u \<Rightarrow> 64 word \<Rightarrow> 8 word list \<Rightarrow> int \<times> 'u) \<Rightarrow> kstate \<Rightarrow> 'u \<Rightarrow>
   int \<Rightarrow> 64 word \<Rightarrow> 64 word \<Rightarrow> 64 word \<Rightarrow> int \<Rightarrow> 'u recv_result" where
  "sys_recv copyout s u port srcaddr sportaddr bufaddr maxlen =
     (case find_ring (rings s) port of
        None \<Rightarrow> Recv_Return (- 1) s u
      | Some i \<Rightarrow>
          (let ring = rings s ! i
           in if ring_empty ring then Recv_Sleep
              else case ring_dequeue ring of
                     Inl f \<Rightarrow> Recv_Fault f
                   | Inr (None, ring') \<Rightarrow> Recv_Return (- 1) s u
                   | Inr (Some p, ring') \<Rightarrow>
                       (let s1 = s\<lparr>rings := (rings s)[i := ring']\<rparr>;
                            eth = buf p;
                            ip = eth + sizeof_eth;
                            ihl = ip_ihl (mem s1) ip;
                            udp = ip + ihl;
                            payload = udp + sizeof_udp;
                            ipsrc = ntohl (load32 (mem s1) (ip + ip_src));
                            (rc1, u1) = copyout u sportaddr (le_bytes 2 (sport p));
                            (rc2, u2) = copyout u1 srcaddr (le_bytes 4 (int ipsrc));
                            udp_len = int (ntohs (load16 (mem s1) (udp + udp_ulen))) - int sizeof_udp;
                            maxlen' = (if maxlen > udp_len then udp_len else maxlen);
                            (rc3, u3) = copyout u2 bufaddr (mem_read (mem s1) payload (to_uint64 maxlen'))
                        in Recv_Return (word_of_int maxlen') (kfree s1 (buf p)) u3)))"


section \<open>The IP header checksum\<close>

text \<open>
  \<open>in_cksum addr len\<close>, on the \<open>len\<close> bytes at \<open>addr\<close>.  The loop adds the 16-bit words,
  read as the machine reads them, to the 32-bit accumulator \<open>sum\<close>; an odd last byte is
  written to the low byte of the zeroed \<open>answer\<close> and added.
\<close>

fun cksum_loop :: "8 word list \<Rightarrow> nat \<Rightarrow> nat" where
  "cksum_loop (b0 # b1 # bs) acc = cksum_loop bs ((acc + (unat b0 + 256 * unat b1)) mod 2 ^ 32)"
| "cksum_loop [b] acc = (acc + unat b) mod 2 ^ 32"
| "cksum_loop [] acc = acc"

text \<open>The two folding statements: \<^verbatim>\<open>sum = (sum & 0xffff) + (sum >> 16); sum += (sum >> 16);\<close>\<close>

definition cksum_fold :: "nat \<Rightarrow> nat" where
  "cksum_fold acc =
     (let s1 = (acc mod 65536 + acc div 65536) mod 2 ^ 32
      in (s1 + s1 div 65536) mod 2 ^ 32)"

text \<open>\<^verbatim>\<open>answer = ~sum\<close>, truncated to 16 bits.\<close>

definition in_cksum :: "8 word list \<Rightarrow> nat" where
  "in_cksum bs = (2 ^ 32 - 1 - cksum_fold (cksum_loop bs 0)) mod 65536"

text \<open>The header with a value stored in its checksum field, \<^verbatim>\<open>ip->ip_sum = v\<close>.\<close>

definition set_ip_sum :: "8 word list \<Rightarrow> nat \<Rightarrow> 8 word list" where
  "set_ip_sum hdr v = hdr[ip_sum := of_nat v, ip_sum + 1 := of_nat (v div 256)]"

text \<open>The check of a receiver: the same sum over the whole header, folded, in 16 bits.\<close>

definition cksum_verify :: "8 word list \<Rightarrow> nat" where
  "cksum_verify bs = cksum_fold (cksum_loop bs 0) mod 65536"

text \<open>
  The checksum in the words of the specification (section 4.3): the sum of the 16-bit
  words, an odd trailing byte zero-extended; the carries above bit 15 folded back into
  bits 0 to 15 until none is left; the result complemented in 16 bits.
\<close>

fun word_sum :: "8 word list \<Rightarrow> nat" where
  "word_sum (b0 # b1 # bs) = unat b0 + 256 * unat b1 + word_sum bs"
| "word_sum [b] = unat b"
| "word_sum [] = 0"

function fold_carries :: "nat \<Rightarrow> nat" where
  "fold_carries n = (if n < 65536 then n else fold_carries (n mod 65536 + n div 65536))"
  by pat_completeness auto
termination
proof (relation "measure id")
  fix n :: nat
  assume big: "\<not> n < 65536"
  define q r where "q = n div 65536" and "r = n mod 65536"
  have n: "n = q * 65536 + r"
    by (simp add: q_def r_def)
  have "0 < q"
    using big by (simp add: q_def div_greater_zero_iff)
  then have "r + q < q * 65536 + r"
    by simp
  then have "r + q < n"
    by (simp only: n [symmetric])
  then have "n mod 65536 + n div 65536 < n"
    unfolding q_def r_def .
  then show "(n mod 65536 + n div 65536, n) \<in> measure id"
    by simp
qed simp

declare fold_carries.simps [simp del]

definition ones_complement_cksum :: "8 word list \<Rightarrow> nat" where
  "ones_complement_cksum bs = 65535 - fold_carries (word_sum bs)"


section \<open>The driver\<close>

text \<open>
  \<open>e1000_init\<close>.  \<open>E1000_RA i\<close> and \<open>E1000_MTA i\<close> are the registers \<^verbatim>\<open>regs[E1000_RA + i]\<close>
  and \<^verbatim>\<open>regs[E1000_MTA + i]\<close>.  The loop over the receive ring allocates one page for each
  descriptor and panics when the allocator returns the null pointer.
\<close>

definition zero_tx_desc :: tx_desc where
  "zero_tx_desc = \<lparr>tx_addr = 0, tx_length = 0, tx_cmd = 0, tx_status = 0\<rparr>"

definition zero_rx_desc :: rx_desc where
  "zero_rx_desc = \<lparr>rx_addr = 0, rx_length = 0, rx_status = 0\<rparr>"

fun init_rx_bufs :: "nat \<Rightarrow> nat \<Rightarrow> kstate \<Rightarrow> fault + kstate" where
  "init_rx_bufs 0 i s = Inr s"
| "init_rx_bufs (Suc n) i s =
     (let (a, s1) = kalloc s
      in if a = 0 then Inl Panic
         else init_rx_bufs n (Suc i)
                (s1\<lparr>rx_bufs := (rx_bufs s1)[i := a],
                    rx_ring := (rx_ring s1)[i := (rx_ring s1 ! i)\<lparr>rx_addr := a\<rparr>]\<rparr>))"

definition set_reg :: "kstate \<Rightarrow> reg \<Rightarrow> 32 word \<Rightarrow> kstate" where
  "set_reg s r v = s\<lparr>regs := (regs s)(r := v)\<rparr>"

definition clear_mta :: "kstate \<Rightarrow> kstate" where
  "clear_mta s =
     s\<lparr>regs := (\<lambda>r. case r of E1000_MTA i \<Rightarrow> (if i < 4096 div 32 then 0 else regs s r)
                          | _ \<Rightarrow> regs s r)\<rparr>"

definition e1000_init :: "e1000_dev \<Rightarrow> kstate \<Rightarrow> fault + kstate" where
  "e1000_init dev s =
     (let s = set_reg s E1000_IMS 0;
          s = set_reg s E1000_CTL (regs s E1000_CTL OR E1000_CTL_RST dev);
          s = set_reg s E1000_IMS 0;
          s = s\<lparr>tx_ring := replicate (TX_RING_SIZE dev)
                             (zero_tx_desc\<lparr>tx_status := E1000_TXD_STAT_DD dev\<rparr>),
                tx_bufs := replicate (TX_RING_SIZE dev) 0\<rparr>;
          s = set_reg s E1000_TDBAL (of_nat (tx_ring_base dev))
      in if (TX_RING_SIZE dev * sizeof_tx_desc dev) mod 128 \<noteq> 0 then Inl Panic
         else
           (let s = set_reg s E1000_TDLEN (of_nat (TX_RING_SIZE dev * sizeof_tx_desc dev));
                s = set_reg s E1000_TDT 0;
                s = set_reg s E1000_TDH 0;
                s = s\<lparr>rx_ring := replicate RX_RING_SIZE zero_rx_desc\<rparr>
            in case init_rx_bufs RX_RING_SIZE 0 s of
                 Inl f \<Rightarrow> Inl f
               | Inr s \<Rightarrow>
                   (let s = set_reg s E1000_RDBAL (of_nat (rx_ring_base dev))
                    in if (RX_RING_SIZE * sizeof_rx_desc dev) mod 128 \<noteq> 0 then Inl Panic
                       else
                         (let s = set_reg s E1000_RDH 0;
                              s = set_reg s E1000_RDT (of_nat (RX_RING_SIZE - 1));
                              s = set_reg s E1000_RDLEN (of_nat (RX_RING_SIZE * sizeof_rx_desc dev));
                              s = set_reg s (E1000_RA 0) 0x12005452;
                              s = set_reg s (E1000_RA 1) (0x5634 OR push_bit 31 1);
                              s = clear_mta s;
                              s = set_reg s E1000_TCTL
                                    (E1000_TCTL_EN dev OR E1000_TCTL_PSP dev
                                     OR push_bit (E1000_TCTL_CT_SHIFT dev) 0x10
                                     OR push_bit (E1000_TCTL_COLD_SHIFT dev) 0x40);
                              s = set_reg s E1000_TIPG (10 OR push_bit 10 8 OR push_bit 20 6);
                              s = set_reg s E1000_RCTL
                                    (E1000_RCTL_EN dev OR E1000_RCTL_BAM dev
                                     OR E1000_RCTL_SZ_2048 dev OR E1000_RCTL_SECRC dev);
                              s = set_reg s E1000_RDTR 0;
                              s = set_reg s E1000_RADV 0;
                              s = set_reg s E1000_IMS (push_bit 7 1)
                          in Inr s))))"

text \<open>
  \<open>e1000_recv\<close>.  One round of the loop looks at the descriptor after the tail,
  \<^verbatim>\<open>rx_ring[(regs[E1000_RDT] + 1) % RX_RING_SIZE]\<close>: \<open>Inr None\<close> is the \<^verbatim>\<open>break\<close>,
  \<open>Inr (Some s')\<close> the state after a frame was passed to \<open>net_rx\<close>, its descriptor given a
  page from \<open>kalloc\<close> and a cleared status, and the tail register set to its index.  The
  loop runs while \<^verbatim>\<open>i < RX_RING_SIZE\<close>; its first argument is the number of rounds
  left, and the function returns the final \<open>i\<close> with the state.
\<close>

definition rx_done :: "e1000_dev \<Rightarrow> rx_desc \<Rightarrow> bool" where
  "rx_done dev d \<longleftrightarrow> rx_status d AND E1000_RXD_STAT_DD dev = E1000_RXD_STAT_DD dev"

definition rx_eop :: "e1000_dev \<Rightarrow> rx_desc \<Rightarrow> bool" where
  "rx_eop dev d \<longleftrightarrow> rx_status d AND E1000_RXD_STAT_EOP dev \<noteq> 0"

definition rx_next :: "kstate \<Rightarrow> nat" where
  "rx_next s = unat ((regs s E1000_RDT + 1) mod of_nat RX_RING_SIZE)"

definition e1000_recv_body :: "e1000_dev \<Rightarrow> kstate \<Rightarrow> fault + kstate option" where
  "e1000_recv_body dev s =
     (let idx = rx_next s;
          desc = rx_ring s ! idx
      in if \<not> rx_done dev desc then Inr None
         else if \<not> rx_eop dev desc then Inl Panic
         else case net_rx s (rx_addr desc) (int (rx_length desc)) of
                Inl f \<Rightarrow> Inl f
              | Inr s1 \<Rightarrow>
                  (let (a, s2) = kalloc s1;
                       s3 = s2\<lparr>rx_ring := (rx_ring s2)[idx := (rx_ring s2 ! idx)\<lparr>rx_addr := a, rx_status := 0\<rparr>]\<rparr>
                   in Inr (Some (set_reg s3 E1000_RDT (of_nat idx)))))"

fun e1000_recv_loop :: "e1000_dev \<Rightarrow> nat \<Rightarrow> nat \<Rightarrow> kstate \<Rightarrow> fault + (nat \<times> kstate)" where
  "e1000_recv_loop dev 0 i s = Inr (i, s)"
| "e1000_recv_loop dev (Suc n) i s =
     (case e1000_recv_body dev s of
        Inl f \<Rightarrow> Inl f
      | Inr None \<Rightarrow> Inr (i, s)
      | Inr (Some s') \<Rightarrow> e1000_recv_loop dev n (Suc i) s')"

definition e1000_recv :: "e1000_dev \<Rightarrow> kstate \<Rightarrow> fault + (nat \<times> kstate)" where
  "e1000_recv dev s = e1000_recv_loop dev RX_RING_SIZE 0 s"

definition e1000_intr :: "e1000_dev \<Rightarrow> kstate \<Rightarrow> fault + (nat \<times> kstate)" where
  "e1000_intr dev s = e1000_recv dev (set_reg s E1000_ICR 0xffffffff)"


text \<open>A number of deliveries to one queue, each retrieved before the next.\<close>

fun ring_cycle :: "nat \<Rightarrow> bind_ring_buffer \<Rightarrow> packet \<Rightarrow> fault + bind_ring_buffer" where
  "ring_cycle 0 ring p = Inr ring"
| "ring_cycle (Suc n) ring p =
     (case ring_enqueue ring p of
        Inl f \<Rightarrow> Inl f
      | Inr (rc, ring') \<Rightarrow>
          (case ring_dequeue ring' of
             Inl f \<Rightarrow> Inl f
           | Inr (q, ring'') \<Rightarrow> ring_cycle n ring'' p))"

section \<open>The state after boot and two frames\<close>

text \<open>
  The state after boot: the static data are zero, nothing was released, allocated or
  sent.  The pool of the allocator is a parameter of the scenarios below.
\<close>

definition boot_state :: kstate where
  "boot_state =
     \<lparr>mem = (\<lambda>a. 0), rings = replicate RINGS_NUM zero_ring, seen_arp = False, seen_ip = False,
      freed = [], kalloc_pool = [], sent = [], tx_accepts = True,
      tx_ring = [], tx_bufs = [],
      rx_ring = replicate RX_RING_SIZE zero_rx_desc, rx_bufs = replicate RX_RING_SIZE 0,
      regs = (\<lambda>r. 0)\<rparr>"

text \<open>
  A frame of 42 bytes in the page at 4096: Ethernet type IP, an IP header of 20 bytes
  (version 4, header length 5), and a UDP header whose destination port is 0.
\<close>

definition port0_frame :: memory where
  "port0_frame = (\<lambda>a. 0)(4096 + 12 := 0x08, 4096 + 13 := 0x00, 4096 + 14 := 0x45)"

text \<open>
  A frame of 46 bytes in the page at 4096: Ethernet type IP, an IP header of 24 bytes
  (version 4, header length 6) whose four option bytes are \<^verbatim>\<open>00 00 23 29\<close>, and a UDP
  header at offset 38 with destination port 7000 (\<^verbatim>\<open>1b 58\<close>) and length 8.
\<close>

definition options_frame :: memory where
  "options_frame =
     (\<lambda>a. 0)(4096 + 12 := 0x08, 4096 + 13 := 0x00, 4096 + 14 := 0x46,
             4096 + 36 := 0x23, 4096 + 37 := 0x29,
             4096 + 40 := 0x1b, 4096 + 41 := 0x58,
             4096 + 43 := 0x08)"

text \<open>
  One setting of the macros of the device header, for the scenarios: rings of 16
  descriptors of 16 bytes, and the bit positions of the device manual (for a receive
  descriptor, bit 0 of the status is "descriptor done" and bit 1 "end of packet").
\<close>

definition dev_8254x :: e1000_dev where
  "dev_8254x =
     \<lparr>TX_RING_SIZE = 16, sizeof_tx_desc = 16, sizeof_rx_desc = 16,
      tx_ring_base = 0x80020000, rx_ring_base = 0x80021000,
      E1000_CTL_RST = 0x04000000,
      E1000_TXD_STAT_DD = 0x01, E1000_RXD_STAT_DD = 0x01, E1000_RXD_STAT_EOP = 0x02,
      E1000_TCTL_EN = 0x00000002, E1000_TCTL_PSP = 0x00000008,
      E1000_TCTL_CT_SHIFT = 4, E1000_TCTL_COLD_SHIFT = 12,
      E1000_RCTL_EN = 0x00000002, E1000_RCTL_BAM = 0x00008000,
      E1000_RCTL_SZ_2048 = 0x00000000, E1000_RCTL_SECRC = 0x04000000\<rparr>"

text \<open>
  The driver after boot with the tail register at 15, and with a first descriptor that
  the device has filled: \<open>rx_frame st\<close> has the status \<open>st\<close> in descriptor 0, whose
  buffer is the page at 4096 and holds a frame of 60 zero bytes.
\<close>

definition rx_idle :: kstate where
  "rx_idle = set_reg boot_state E1000_RDT 15"

definition rx_frame :: "8 word \<Rightarrow> kstate" where
  "rx_frame st =
     rx_idle\<lparr>rx_ring := \<lparr>rx_addr = 4096, rx_length = 60, rx_status = st\<rparr>
                          # replicate 15 zero_rx_desc\<rparr>"

text \<open>The state after \<open>e1000_recv\<close> on \<open>rx_frame 3\<close>, when the allocator has no page left.\<close>

definition rx_after :: kstate where
  "rx_after =
     set_reg ((kfree (rx_frame 3) 4096)
                \<lparr>rx_ring := \<lparr>rx_addr = 0, rx_length = 60, rx_status = 0\<rparr>
                             # replicate 15 zero_rx_desc\<rparr>)
       E1000_RDT 0"

text \<open>
  Two behaviours of \<^verbatim>\<open>copyout\<close> for the scenarios: every copy succeeds and the user memory
  is the list of the copies made; every copy fails and nothing is written.
\<close>

definition copyout_log ::
  "(64 word \<times> 8 word list) list \<Rightarrow> 64 word \<Rightarrow> 8 word list \<Rightarrow> int \<times> (64 word \<times> 8 word list) list" where
  "copyout_log u dst bs = (0, u @ [(dst, bs)])"

definition copyout_fails :: "unit \<Rightarrow> 64 word \<Rightarrow> 8 word list \<Rightarrow> int \<times> unit" where
  "copyout_fails u dst bs = (- 1, u)"

text \<open>
  The address of the UDP header and the length of the payload as \<open>sys_recv\<close> computes
  them from the bytes of a buffer \<open>b\<close>: \<^verbatim>\<open>(char*)ip + ihl\<close> and
  \<^verbatim>\<open>ntohs(udp->ulen) - (int)sizeof(struct udp)\<close>.
\<close>

definition recv_udp :: "memory \<Rightarrow> nat \<Rightarrow> nat" where
  "recv_udp m b = b + sizeof_eth + ip_ihl m (b + sizeof_eth)"

definition recv_udp_len :: "memory \<Rightarrow> nat \<Rightarrow> int" where
  "recv_udp_len m b = int (ntohs (load16 m (recv_udp m b + udp_ulen))) - int sizeof_udp"

text \<open>
  A frame of 47 bytes in the page at 4096, from 10.0.2.2, UDP port 2000 (\<^verbatim>\<open>07 d0\<close>), to
  port 7000, with a UDP length of 13 and the payload \<^verbatim>\<open>hello\<close>; and the state in which
  port 7000 was bound and this frame delivered.
\<close>

definition hello_frame :: memory where
  "hello_frame =
     (\<lambda>a. 0)(4096 + 12 := 0x08, 4096 + 14 := 0x45,
             4096 + 26 := 10, 4096 + 27 := 0, 4096 + 28 := 2, 4096 + 29 := 2,
             4096 + 34 := 0x07, 4096 + 35 := 0xd0,
             4096 + 36 := 0x1b, 4096 + 37 := 0x58,
             4096 + 38 := 0, 4096 + 39 := 13,
             4096 + 42 := 0x68, 4096 + 43 := 0x65, 4096 + 44 := 0x6c, 4096 + 45 := 0x6c,
             4096 + 46 := 0x6f)"

definition hello_ring :: bind_ring_buffer where
  "hello_ring =
     \<lparr>queue = \<lparr>buf = 4096, sport = 2000, len = 47\<rparr> # replicate 15 zero_packet,
      read_c = 0, write_c = 1, dropped = 0, dport = 7000\<rparr>"

definition hello_state :: kstate where
  "hello_state =
     boot_state\<lparr>mem := hello_frame, seen_ip := True, rings := hello_ring # replicate 99 zero_ring\<rparr>"

text \<open>
  Two IP headers of 20 bytes, as \<open>sys_send\<close> builds them for a datagram without payload
  (total length 28, time to live 100, protocol 17, from 10.0.2.15 to 10.0.2.2): one
  with a zero checksum field, one whose checksum field holds the bytes \<^verbatim>\<open>12 34\<close>.
\<close>

definition fresh_hdr :: "8 word list" where
  "fresh_hdr = [0x45, 0, 0, 0x1c, 0, 0, 0, 0, 0x64, 0x11, 0, 0, 10, 0, 2, 15, 10, 0, 2, 2]"

definition stale_hdr :: "8 word list" where
  "stale_hdr = [0x45, 0, 0, 0x1c, 0, 0, 0, 0, 0x64, 0x11, 0x12, 0x34, 10, 0, 2, 15, 10, 0, 2, 2]"

section \<open>Properties of the delivery queues\<close>

lemma sint_small:
  fixes c :: "32 word"
  assumes "unat c < 2 ^ 31"
  shows "sint c = int (unat c)"
proof -
  have "int (unat c) < int (2 ^ 31)"
    using assms by (simp only: of_nat_less_iff)
  then have "uint c < 2 ^ 31" by simp
  moreover have "- (2 ^ 31) \<le> (0::int)" by simp
  then have "- (2 ^ 31) \<le> uint c"
    using uint_ge_0 [of c] by (rule order_trans)
  ultimately have "signed_take_bit 31 (uint c) = uint c"
    by (intro signed_take_bit_int_eq_self)
  then show ?thesis
    by (simp add: sint_uint)
qed

lemma smod_nonneg: "0 \<le> k \<Longrightarrow> k smod 16 = k mod (16::int)"
  by (simp add: signed_modulo_int_def sgn_if)

lemma ring_slot_small:
  assumes "unat c < 2 ^ 31"
  shows "ring_slot c = Inr (unat c mod MAX_QUEUE_LEN)"
proof -
  have s: "sint c = int (unat c)"
    using assms by (rule sint_small)
  have "ring_mod (int (unat c)) = int (unat c mod 16)"
    unfolding ring_mod_def MAX_QUEUE_LEN_def
    by (simp only: of_nat_numeral smod_nonneg of_nat_0_le_iff zmod_int)
  then show ?thesis 
    unfolding ring_slot_def s by (simp add: MAX_QUEUE_LEN_def)
qed

lemma unat_cursor_add:
  fixes c :: "32 word"
  assumes "unat c + k \<le> 2 ^ 31"
  shows "unat (c + of_nat k) = unat c + k"
proof -
  have k: "k < 2 ^ 32" using assms by simp
  then have "unat (of_nat k :: 32 word) = k"
    by (simp add: unat_of_nat)
  moreover have "unat c + k < 2 ^ 32" using assms by simp
  ultimately show ?thesis
    using unat_add_lem [of c "of_nat k"] by simp
qed

lemma ring_size_unat:
  assumes "unat (write_c r - read_c r) \<le> MAX_QUEUE_LEN"
  shows "ring_size r = int (unat (write_c r - read_c r))"
  unfolding ring_size_def
  using assms by (intro sint_small) (simp add: MAX_QUEUE_LEN_def)

lemma ring_full_unat:
  assumes "unat (write_c r - read_c r) \<le> MAX_QUEUE_LEN"
  shows "ring_full r \<longleftrightarrow> unat (write_c r - read_c r) = MAX_QUEUE_LEN"
  unfolding ring_full_def ring_size_unat [OF assms] by (simp only: of_nat_eq_iff)

lemma unat_write_c:
  assumes "ring_ok r"
  shows "unat (write_c r) = unat (read_c r) + unat (write_c r - read_c r)"
proof -
  have "unat (read_c r + of_nat (unat (write_c r - read_c r))) = unat (read_c r) + unat (write_c r - read_c r)"
    using assms by (intro unat_cursor_add) (simp add: ring_ok_def)
  then show ?thesis by simp
qed


lemma ring_enqueue_live:
  fixes r :: bind_ring_buffer and p :: packet
  assumes ok: "ring_ok r" and nf: "\<not> ring_full r" and w: "unat (write_c r) < 2 ^ 31"
  defines "r' \<equiv> r\<lparr>queue := (queue r)[unat (write_c r) mod MAX_QUEUE_LEN := p],
                     write_c := write_c r + 1\<rparr>"
  shows "ring_enqueue r p = Inr (0, r')" and "ring_ok r'" and "ring_live r' = ring_live r @ [p]"
proof -
  let ?n = "unat (write_c r - read_c r)"
  let ?a = "unat (read_c r)"
  have len: "length (queue r) = MAX_QUEUE_LEN" and n16: "?n \<le> MAX_QUEUE_LEN"
    and an: "?a + ?n \<le> 2 ^ 31"
    using ok by (simp_all add: ring_ok_def)
  have n15: "?n < MAX_QUEUE_LEN"
    using nf n16 ring_full_unat [OF n16] by simp
  have wa: "unat (write_c r) = ?a + ?n"
    by (rule unat_write_c [OF ok])
  show "ring_enqueue r p = Inr (0, r')"
    using nf by (simp add: ring_enqueue_def ring_slot_small [OF w] r'_def)
  have e: "write_c r + 1 - read_c r = (write_c r - read_c r) + of_nat 1" by simp
  have "unat ((write_c r - read_c r) + of_nat 1) = ?n + 1"
    using n16 by (intro unat_cursor_add) (simp add: MAX_QUEUE_LEN_def)
  then have "unat (write_c r + 1 - read_c r) = Suc ?n"
    by (simp only: e Suc_eq_plus1)
  then have n': "unat (write_c r' - read_c r') = Suc ?n"
    by (simp add: r'_def)
  show "ring_ok r'"
    using len n15 an w wa n' by (simp add: ring_ok_def r'_def)
  have slot: "unat (read_c r + of_nat k) = ?a + k" if "k \<le> ?n" for k
    using that an by (intro unat_cursor_add) simp
  have old: "queue r' ! (unat (read_c r' + of_nat k) mod MAX_QUEUE_LEN)
           = queue r ! (unat (read_c r + of_nat k) mod MAX_QUEUE_LEN)" if "k < ?n" for k
  proof -
    have "(?a + k) mod MAX_QUEUE_LEN \<noteq> (?a + ?n) mod MAX_QUEUE_LEN"
    proof
      assume "(?a + k) mod MAX_QUEUE_LEN = (?a + ?n) mod MAX_QUEUE_LEN"
      then have "MAX_QUEUE_LEN dvd (?a + ?n) - (?a + k)"
        using that by (metis mod_eq_dvd_iff_nat add_le_cancel_left less_imp_le)
      then have "MAX_QUEUE_LEN dvd ?n - k" by simp
      then show False
        using that n15 by (auto dest!: dvd_imp_le simp: MAX_QUEUE_LEN_def)
    qed
    then show ?thesis
      using that by (simp add: r'_def slot wa)
  qed
  have new: "queue r' ! (unat (read_c r' + of_nat ?n) mod MAX_QUEUE_LEN) = p"
    using len by (simp add: r'_def slot wa MAX_QUEUE_LEN_def)
  show "ring_live r' = ring_live r @ [p]"
    unfolding ring_live_def n' using old new by simp
qed


lemma ring_dequeue_live:
  fixes r :: bind_ring_buffer
  assumes ok: "ring_ok r" and ne: "\<not> ring_empty r"
  defines "r' \<equiv> r\<lparr>read_c := read_c r + 1\<rparr>"
  shows "ring_dequeue r = Inr (Some (hd (ring_live r)), r')" and "ring_ok r'"
    and "ring_live r' = tl (ring_live r)" and "ring_live r \<noteq> []"
proof -
  let ?n = "unat (write_c r - read_c r)"
  let ?a = "unat (read_c r)"
  have len: "length (queue r) = MAX_QUEUE_LEN" and n16: "?n \<le> MAX_QUEUE_LEN"
    and an: "?a + ?n \<le> 2 ^ 31"
    using ok by (simp_all add: ring_ok_def)
  have "write_c r - read_c r \<noteq> 0"
    using ne by (simp add: ring_empty_def)
  then have n0: "0 < ?n"
    by (simp add: unat_gt_0)
  then have a: "?a < 2 ^ 31" using an by simp
  show ne': "ring_live r \<noteq> []"
    using n0 by (simp add: ring_live_def)
  have "hd (ring_live r) = queue r ! (?a mod MAX_QUEUE_LEN)"
    using n0 by (simp add: ring_live_def hd_map upt_conv_Cons)
  then show "ring_dequeue r = Inr (Some (hd (ring_live r)), r')"
    using ne by (simp add: ring_dequeue_def ring_slot_small [OF a] r'_def)
  have a1: "unat (read_c r + 1) = ?a + 1"
    using unat_cursor_add [of "read_c r" 1] a by simp
  have e: "write_c r - (read_c r + 1) = (write_c r - read_c r) - 1" by simp
  have "unat ((write_c r - read_c r) - 1) = ?n - 1"
    using n0 by (simp add: unat_minus_one unat_gt_0)
  then have "unat (write_c r - (read_c r + 1)) = ?n - 1"
    by (simp only: e)
  then have n': "unat (write_c r' - read_c r') = ?n - 1"
    by (simp add: r'_def)
  show "ring_ok r'"
    using len n16 an n0 a1 n' by (simp add: ring_ok_def r'_def)
  have "ring_live r' =
      map (\<lambda>k. queue r ! (unat (read_c r + of_nat (Suc k)) mod MAX_QUEUE_LEN)) [0 ..< ?n - 1]"
    unfolding ring_live_def n' by (simp add: r'_def add.assoc)
  also have "\<dots> = map (\<lambda>k. queue r ! (unat (read_c r + of_nat k) mod MAX_QUEUE_LEN)) (map Suc [0 ..< ?n - 1])"
    by (simp add: comp_def)
  also have "map Suc [0 ..< ?n - 1] = tl [0 ..< ?n]"
    using n0 by (simp add: map_Suc_upt tl_upt)
  finally have "ring_live r' =
      map (\<lambda>k. queue r ! (unat (read_c r + of_nat k) mod MAX_QUEUE_LEN)) (tl [0 ..< ?n])" .
  moreover have "tl (ring_live r) =
      map (\<lambda>k. queue r ! (unat (read_c r + of_nat k) mod MAX_QUEUE_LEN)) (tl [0 ..< ?n])"
    by (simp only: ring_live_def map_tl)
  ultimately show "ring_live r' = tl (ring_live r)"
    by (rule trans [OF _ sym])
qed



lemma ring_live_length: "length (ring_live r) = unat (write_c r - read_c r)"
  by (simp add: ring_live_def)

lemma ring_size_live:
  assumes "ring_ok r"
  shows "ring_size r = int (length (ring_live r))"
  using assms by (simp only: ring_live_length ring_size_unat ring_ok_def)

lemma ring_live_dropped [simp]: "ring_live (r\<lparr>dropped := d\<rparr>) = ring_live r"
  by (simp add: ring_live_def)

lemma ring_ok_dropped [simp]: "ring_ok (r\<lparr>dropped := d\<rparr>) = ring_ok r"
  by (simp add: ring_ok_def)

lemma ring_enqueue_full:
  assumes "ring_full r"
  shows "ring_enqueue r p = Inr (1, r\<lparr>dropped := dropped r + 1\<rparr>)"
  using assms by (simp add: ring_enqueue_def)

lemma ring_enqueue_all_live:
  assumes "ring_ok r" and "length (ring_live r) + length ps \<le> MAX_QUEUE_LEN"
    and "unat (write_c r) + length ps \<le> 2 ^ 31"
  shows "\<exists>r'. ring_enqueue_all r ps = Inr (replicate (length ps) 0, r') \<and> ring_ok r' \<and>
              ring_live r' = ring_live r @ ps \<and> dropped r' = dropped r"
  using assms
proof (induction ps arbitrary: r)
  case Nil
  then show ?case by simp
next
  case (Cons p ps)
  let ?r1 = "r\<lparr>queue := (queue r)[unat (write_c r) mod MAX_QUEUE_LEN := p],
                 write_c := write_c r + 1\<rparr>"
  have ok: "ring_ok r" by fact
  have n16: "unat (write_c r - read_c r) \<le> MAX_QUEUE_LEN"
    using ok by (simp add: ring_ok_def)
  have nf: "\<not> ring_full r"
    using Cons.prems(2) ring_full_unat [OF n16] by (simp add: ring_live_length)
  have w: "unat (write_c r) < 2 ^ 31"
    using Cons.prems(3) by simp
  note e = ring_enqueue_live [OF ok nf w, of p]
  have w1: "unat (write_c ?r1) = unat (write_c r) + 1"
    using unat_cursor_add [of "write_c r" 1] w by simp
  have "\<exists>r'. ring_enqueue_all ?r1 ps = Inr (replicate (length ps) 0, r') \<and> ring_ok r' \<and>
              ring_live r' = ring_live ?r1 @ ps \<and> dropped r' = dropped ?r1"
  proof (rule Cons.IH)
    show "ring_ok ?r1" by (rule e(2))
    show "length (ring_live ?r1) + length ps \<le> MAX_QUEUE_LEN"
      using Cons.prems(2) by (simp add: e(3))
    show "unat (write_c ?r1) + length ps \<le> 2 ^ 31"
      using Cons.prems(3) by (simp only: w1) simp
  qed
  then obtain r' where r': "ring_enqueue_all ?r1 ps = Inr (replicate (length ps) 0, r')"
      "ring_ok r'" "ring_live r' = ring_live ?r1 @ ps" "dropped r' = dropped ?r1"
    by blast
  have "ring_enqueue_all r (p # ps) = Inr (replicate (length (p # ps)) 0, r')"
    by (simp add: e(1) r'(1))
  moreover have "ring_live r' = ring_live r @ p # ps"
    by (simp add: r'(3) e(3))
  moreover have "dropped r' = dropped r"
    by (simp add: r'(4))
  ultimately show ?case
    using r'(2) by blast
qed

lemma ring_dequeue_n_live:
  assumes "ring_ok r" and "n \<le> length (ring_live r)"
  shows "\<exists>r'. ring_dequeue_n n r = Inr (map Some (take n (ring_live r)), r') \<and> ring_ok r' \<and>
              ring_live r' = drop n (ring_live r) \<and> dropped r' = dropped r"
  using assms
proof (induction n arbitrary: r)
  case 0
  then show ?case by simp
next
  case (Suc n)
  let ?r1 = "r\<lparr>read_c := read_c r + 1\<rparr>"
  have ok: "ring_ok r" by fact
  have "unat (write_c r - read_c r) \<noteq> 0"
    using Suc.prems(2) by (simp add: ring_live_length)
  then have ne: "\<not> ring_empty r"
    by (auto simp: ring_empty_def)
  note d = ring_dequeue_live [OF ok ne]
  have "\<exists>r'. ring_dequeue_n n ?r1 = Inr (map Some (take n (ring_live ?r1)), r') \<and> ring_ok r' \<and>
              ring_live r' = drop n (ring_live ?r1) \<and> dropped r' = dropped ?r1"
  proof (rule Suc.IH)
    show "ring_ok ?r1" by (rule d(2))
    show "n \<le> length (ring_live ?r1)"
      using Suc.prems(2) by (simp add: d(3))
  qed
  then obtain r' where r': "ring_dequeue_n n ?r1 = Inr (map Some (take n (ring_live ?r1)), r')"
      "ring_ok r'" "ring_live r' = drop n (ring_live ?r1)" "dropped r' = dropped ?r1"
    by blast
  obtain x xs where xs: "ring_live r = x # xs"
    using d(4) by (cases "ring_live r") auto
  have "ring_dequeue_n (Suc n) r = Inr (map Some (take (Suc n) (ring_live r)), r')"
    by (simp add: d(1) r'(1) d(3) xs)
  moreover have "ring_live r' = drop (Suc n) (ring_live r)"
    by (simp add: r'(3) d(3) xs)
  moreover have "dropped r' = dropped r"
    by (simp add: r'(4))
  ultimately show ?case
    using r'(2) by blast
qed

lemma ring_slot_mid: "ring_slot 0x80000000 = Inr 0"
  by (simp add: ring_slot_def ring_mod_def MAX_QUEUE_LEN_def signed_modulo_int_def)

lemma ring_slot_le:
  assumes "unat c \<le> 2 ^ 31"
  shows "\<exists>i. ring_slot c = Inr i"
proof (cases "unat c < 2 ^ 31")
  case True
  then show ?thesis by (simp add: ring_slot_small)
next
  case False
  then have "unat c = 2 ^ 31" using assms by simp
  then have "unat c = unat (0x80000000 :: 32 word)" by simp
  then have "c = 0x80000000" by (simp only: word_unat_eq_iff)
  then show ?thesis by (simp add: ring_slot_mid)
qed

lemma ring_cycle_cursor:
  assumes "ring_empty r" and "unat (write_c r) + n \<le> 2 ^ 31 + 1"
  shows "\<exists>r'. ring_cycle n r p = Inr r' \<and> ring_empty r' \<and> write_c r' = write_c r + of_nat n"
  using assms
proof (induction n arbitrary: r)
  case 0
  then show ?case by simp
next
  case (Suc n)
  have e: "write_c r = read_c r"
    using Suc.prems(1) by (simp add: ring_empty_def)
  have nf: "\<not> ring_full r"
    by (simp add: ring_full_def ring_size_def e MAX_QUEUE_LEN_def)
  have "unat (write_c r) \<le> 2 ^ 31"
    using Suc.prems(2) by simp
  then obtain i where i: "ring_slot (write_c r) = Inr i"
    using ring_slot_le by blast
  let ?r1 = "r\<lparr>queue := (queue r)[i := p], write_c := write_c r + 1\<rparr>"
  let ?r2 = "?r1\<lparr>read_c := read_c ?r1 + 1\<rparr>"
  have enq: "ring_enqueue r p = Inr (0, ?r1)"
    using nf i by (simp add: ring_enqueue_def)
  have deq: "ring_dequeue ?r1 = Inr (Some (queue ?r1 ! i), ?r2)"
    using i by (simp add: ring_dequeue_def ring_empty_def e)
  have u: "unat (write_c r + 1) = unat (write_c r) + 1"
    using unat_add_lem [of "write_c r" 1] Suc.prems(2) by simp
  have "\<exists>r'. ring_cycle n ?r2 p = Inr r' \<and> ring_empty r' \<and> write_c r' = write_c ?r2 + of_nat n"
  proof (rule Suc.IH)
    show "ring_empty ?r2" by (simp add: ring_empty_def e)
    show "unat (write_c ?r2) + n \<le> 2 ^ 31 + 1"
      using Suc.prems(2) by (simp add: u)
  qed
  then obtain r' where r': "ring_cycle n ?r2 p = Inr r'" "ring_empty r'"
      "write_c r' = write_c ?r2 + of_nat n"
    by blast
  have "ring_cycle (Suc n) r p = Inr r'"
    using r'(1) by (simp add: enq deq)
  moreover have "write_c r' = write_c r + of_nat (Suc n)"
    by (simp add: r'(3))
  ultimately show ?case using r'(2) by blast
qed

text \<open>
  C2.  The difference of the cursors counts the entries of a queue in order
  (\<open>ring_size_live\<close>), and a full queue is left alone (\<open>ring_enqueue_full\<close>), but the
  slot of a cursor is computed by \<open>ring_mod\<close> on an \<^verbatim>\<open>int\<close>: a cursor above \<open>2 ^ 31\<close> is
  read as a negative number and its remainder is negative.  After \<open>2 ^ 31 + 1\<close>
  deliveries to a fresh queue, each retrieved before the next, both cursors are
  \<^verbatim>\<open>0x80000001\<close>, \<open>ring_mod\<close> gives \<open>-15\<close>, and the next delivery writes outside the
  array of 16 slots: the cursor arithmetic does not stay correct for unboundedly many
  operations.
\<close>

theorem ring_index_after_wrap:
  "\<exists>r. ring_cycle (2 ^ 31 + 1) (ring_init zero_ring) p = Inr r \<and>
       read_c r = 0x80000001 \<and> write_c r = 0x80000001 \<and>
       ring_mod (sint (write_c r)) = - 15 \<and>
       ring_enqueue r p = Inl OutOfBounds"
proof -
  have "ring_empty (ring_init zero_ring)"
    by (simp add: ring_empty_def ring_init_def)
  moreover have "unat (write_c (ring_init zero_ring)) + (2 ^ 31 + 1) \<le> 2 ^ 31 + 1"
    by (simp add: ring_init_def)
  ultimately obtain r where r: "ring_cycle (2 ^ 31 + 1) (ring_init zero_ring) p = Inr r"
      "ring_empty r" "write_c r = write_c (ring_init zero_ring) + of_nat (2 ^ 31 + 1)"
    using ring_cycle_cursor by blast
  have w: "write_c r = 0x80000001"
    by (simp add: r(3) ring_init_def)
  then have rd: "read_c r = 0x80000001"
    using r(2) by (simp add: ring_empty_def)
  have m: "ring_mod (sint (0x80000001 :: 32 word)) = - 15"
    by (simp add: ring_mod_def MAX_QUEUE_LEN_def signed_modulo_int_def)
  have s: "ring_slot 0x80000001 = Inl OutOfBounds"
    by (simp add: ring_slot_def ring_mod_def MAX_QUEUE_LEN_def signed_modulo_int_def)
  have "ring_enqueue r p = Inl OutOfBounds"
    by (simp add: ring_enqueue_def ring_full_def ring_size_def w rd s MAX_QUEUE_LEN_def)
  then show ?thesis
    using r(1) w rd m by simp
qed

text \<open>
  Full queues whose cursors lie below \<open>2 ^ 31\<close>.  A delivery to a full queue adds
  exactly 1 to its drop counter, reports failure (1) and changes neither the slots nor
  the cursors, whatever the cursors are.  Sixteen datagrams delivered to an empty queue
  with cursors below \<open>2 ^ 31\<close> fill it; the seventeenth is dropped, the drop counter
  grows by 1, and sixteen retrievals then give the first sixteen datagrams in the order
  of their arrival and leave the queue empty.
\<close>

theorem full_queue_drops:
  assumes len: "length (queue r) = MAX_QUEUE_LEN" and e: "ring_empty r"
    and w: "unat (write_c r) + MAX_QUEUE_LEN \<le> 2 ^ 31" and ps: "length ps = MAX_QUEUE_LEN"
  shows "(ring_full q \<longrightarrow> ring_enqueue q p = Inr (1, q\<lparr>dropped := dropped q + 1\<rparr>)) \<and>
         (\<exists>r16 r0.
           ring_enqueue_all r ps = Inr (replicate MAX_QUEUE_LEN 0, r16) \<and>
           ring_size r16 = 16 \<and>
           ring_enqueue r16 p = Inr (1, r16\<lparr>dropped := dropped r16 + 1\<rparr>) \<and>
           dropped r16 = dropped r \<and>
           ring_dequeue_n MAX_QUEUE_LEN (r16\<lparr>dropped := dropped r16 + 1\<rparr>) = Inr (map Some ps, r0) \<and>
           ring_empty r0)"
proof -
  have z: "write_c r - read_c r = 0"
    using e by (simp add: ring_empty_def)
  have ok: "ring_ok r"
    using len w by (simp add: ring_ok_def z e [unfolded ring_empty_def, symmetric])
  have l0: "ring_live r = []"
    by (simp add: ring_live_def z)
  obtain r16 where r16: "ring_enqueue_all r ps = Inr (replicate (length ps) 0, r16)"
      "ring_ok r16" "ring_live r16 = ring_live r @ ps" "dropped r16 = dropped r"
    using ring_enqueue_all_live [OF ok, of ps] w ps l0 by auto
  have live: "ring_live r16 = ps"
    by (simp add: r16(3) l0)
  have sz: "ring_size r16 = 16"
    using ring_size_live [OF r16(2)] ps by (simp add: live MAX_QUEUE_LEN_def)
  then have full: "ring_full r16"
    by (simp add: ring_full_def MAX_QUEUE_LEN_def)
  let ?r17 = "r16\<lparr>dropped := dropped r16 + 1\<rparr>"
  obtain r0 where r0: "ring_dequeue_n MAX_QUEUE_LEN ?r17 = Inr (map Some (take MAX_QUEUE_LEN (ring_live ?r17)), r0)"
      "ring_ok r0" "ring_live r0 = drop MAX_QUEUE_LEN (ring_live ?r17)"
    using ring_dequeue_n_live [of ?r17 MAX_QUEUE_LEN] r16(2) ps by (auto simp: live)
  have "length (ring_live r0) = 0"
    using ps by (simp add: r0(3) live)
  then have "ring_empty r0"
    by (simp add: ring_live_length ring_empty_def unat_eq_zero)
  moreover have "ring_dequeue_n MAX_QUEUE_LEN ?r17 = Inr (map Some ps, r0)"
    using r0(1) ps by (simp add: live)
  ultimately have "\<exists>r16 r0.
           ring_enqueue_all r ps = Inr (replicate MAX_QUEUE_LEN 0, r16) \<and>
           ring_size r16 = 16 \<and>
           ring_enqueue r16 p = Inr (1, r16\<lparr>dropped := dropped r16 + 1\<rparr>) \<and>
           dropped r16 = dropped r \<and>
           ring_dequeue_n MAX_QUEUE_LEN (r16\<lparr>dropped := dropped r16 + 1\<rparr>) = Inr (map Some ps, r0) \<and>
           ring_empty r0"
    using r16(1) r16(4) sz ring_enqueue_full [OF full, of p] ps by auto
  then show ?thesis
    by (simp add: ring_enqueue_full)
qed

theorem full_queue_drops_witness:
  "(ring_full (zero_ring\<lparr>write_c := 16\<rparr>) \<and>
    ring_enqueue (zero_ring\<lparr>write_c := 16\<rparr>) zero_packet
      = Inr (1, zero_ring\<lparr>write_c := 16, dropped := 1\<rparr>)) \<and>
   (\<exists>r16 r0.
      ring_enqueue_all (ring_init zero_ring) (map (\<lambda>k. \<lparr>buf = k, sport = 0, len = 0\<rparr>) [0 ..< 16])
        = Inr (replicate MAX_QUEUE_LEN 0, r16) \<and>
      ring_size r16 = 16 \<and>
      ring_enqueue r16 zero_packet = Inr (1, r16\<lparr>dropped := dropped r16 + 1\<rparr>) \<and>
      dropped r16 = 0 \<and>
      ring_dequeue_n MAX_QUEUE_LEN (r16\<lparr>dropped := dropped r16 + 1\<rparr>)
        = Inr (map Some (map (\<lambda>k. \<lparr>buf = k, sport = 0, len = 0\<rparr>) [0 ..< 16]), r0) \<and>
      ring_empty r0)"
proof -
  have f: "ring_full (zero_ring\<lparr>write_c := 16\<rparr>)"
    by (simp add: ring_full_def ring_size_def zero_ring_def MAX_QUEUE_LEN_def)
  have l: "length (queue (ring_init zero_ring)) = MAX_QUEUE_LEN"
    by (simp add: ring_init_def)
  have e: "ring_empty (ring_init zero_ring)"
    by (simp add: ring_empty_def ring_init_def)
  have w: "unat (write_c (ring_init zero_ring)) + MAX_QUEUE_LEN \<le> 2 ^ 31"
    by (simp add: ring_init_def MAX_QUEUE_LEN_def)
  have n: "length (map (\<lambda>k. \<lparr>buf = k, sport = 0, len = 0\<rparr>) [0 ..< 16]) = MAX_QUEUE_LEN"
    by (simp add: MAX_QUEUE_LEN_def)
  have d: "dropped (ring_init zero_ring) = 0" "dropped (zero_ring\<lparr>write_c := 16\<rparr>) = 0"
    by (simp_all add: ring_init_def zero_ring_def)
  show ?thesis
    using full_queue_drops [OF l e w n, of "zero_ring\<lparr>write_c := 16\<rparr>" zero_packet] f
    by (simp add: d)
qed



text \<open>
  C5.  The drop itself is as claimed on every full queue (\<open>ring_enqueue_full\<close>), and
  below \<open>2 ^ 31\<close> the sixteen entries come back in order (\<open>full_queue_drops\<close>).  But
  the entries of a full queue do not always remain retrievable.  The slot of a cursor
  is computed on an \<^verbatim>\<open>int\<close>, as in C2: after \<open>2 ^ 31 + 1\<close> deliveries to a fresh queue,
  each retrieved before the next, the next delivery is already written outside the
  array; and on the queue that these deliveries fill, with the cursors \<^verbatim>\<open>0x80000001\<close> and
  \<^verbatim>\<open>0x80000011\<close>, the seventeenth delivery is dropped as claimed and the retrieval that
  follows reads outside the array.
\<close>

theorem full_queue_after_wrap:
  "(\<exists>r. ring_cycle (2 ^ 31 + 1) (ring_init zero_ring) p = Inr r \<and>
        ring_enqueue_all r (p # ps) = Inl OutOfBounds) \<and>
   ring_size wrapped_full_ring = 16 \<and>
   ring_enqueue wrapped_full_ring p = Inr (1, wrapped_full_ring\<lparr>dropped := 1\<rparr>) \<and>
   ring_dequeue (wrapped_full_ring\<lparr>dropped := 1\<rparr>) = Inl OutOfBounds"
proof -
  have "ring_empty (ring_init zero_ring)"
    by (simp add: ring_empty_def ring_init_def)
  moreover have "unat (write_c (ring_init zero_ring)) + (2 ^ 31 + 1) \<le> 2 ^ 31 + 1"
    by (simp add: ring_init_def)
  ultimately obtain r where r: "ring_cycle (2 ^ 31 + 1) (ring_init zero_ring) p = Inr r"
      "ring_empty r" "write_c r = write_c (ring_init zero_ring) + of_nat (2 ^ 31 + 1)"
    using ring_cycle_cursor by blast
  have w: "write_c r = 0x80000001"
    by (simp add: r(3) ring_init_def)
  then have rd: "read_c r = 0x80000001"
    using r(2) by (simp add: ring_empty_def)
  have sl: "ring_slot 0x80000001 = Inl OutOfBounds"
    by (simp add: ring_slot_def ring_mod_def MAX_QUEUE_LEN_def signed_modulo_int_def)
  have "ring_enqueue r p = Inl OutOfBounds"
    by (simp add: ring_enqueue_def ring_full_def ring_size_def w rd sl MAX_QUEUE_LEN_def)
  then have a: "ring_enqueue_all r (p # ps) = Inl OutOfBounds"
    by simp
  have sz: "ring_size wrapped_full_ring = 16"
    by (simp add: ring_size_def wrapped_full_ring_def)
  then have "ring_full wrapped_full_ring"
    by (simp add: ring_full_def MAX_QUEUE_LEN_def)
  then have e: "ring_enqueue wrapped_full_ring p = Inr (1, wrapped_full_ring\<lparr>dropped := 1\<rparr>)"
    by (simp add: ring_enqueue_full wrapped_full_ring_def)
  have d: "ring_dequeue (wrapped_full_ring\<lparr>dropped := 1\<rparr>) = Inl OutOfBounds"
    by (simp add: ring_dequeue_def ring_empty_def wrapped_full_ring_def sl)
  show ?thesis
    using r(1) a sz e d by blast
qed

section \<open>Properties of the receive path\<close>

lemma find_dport_replicate_None:
  "dport r \<noteq> port \<Longrightarrow> find_dport (replicate n r) port i = None"
  by (induction n arbitrary: i) simp_all

lemma find_dport_hd:
  "rs = r # rs' \<Longrightarrow> dport r = port \<Longrightarrow> find_dport rs port i = Some i"
  by simp

lemma rings_boot: "rings boot_state = zero_ring # replicate 99 zero_ring"
  by (simp add: boot_state_def RINGS_NUM_def numeral_eq_Suc)

lemma net_rx_ip:
  assumes "ntohs (load16 (mem s) (b + eth_type)) = ETHTYPE_IP" and "34 \<le> to_uint64 n"
  shows "net_rx s b n = ip_rx s b n"
  using assms
  by (simp add: net_rx_def ETHTYPE_IP_def ETHTYPE_ARP_def sizeof_eth_def sizeof_ip_def)

lemma ip_rx_unbound:
  assumes "find_ring (rings s) (int (ntohs (load16 (mem s) (b + sizeof_eth + sizeof_ip + udp_dport)))) = None"
  shows "ip_rx s b n = Inr (kfree (s\<lparr>seen_ip := True\<rparr>) b)"
  using assms by (simp add: ip_rx_def Let_def)

lemma ip_rx_bound:
  assumes "find_ring (rings s) (int (ntohs (load16 (mem s) (b + sizeof_eth + sizeof_ip + udp_dport)))) = Some i"
    and "ring_enqueue (rings s ! i)
           \<lparr>buf = b, sport = int (ntohs (load16 (mem s) (b + sizeof_eth + sizeof_ip + udp_sport))), len = n\<rparr>
         = Inr (rc, r')"
  shows "ip_rx s b n =
         Inr (if rc \<noteq> 0 then kfree (s\<lparr>seen_ip := True, rings := (rings s)[i := r']\<rparr>) b
              else s\<lparr>seen_ip := True, rings := (rings s)[i := r']\<rparr>)"
  using assms by (simp add: ip_rx_def Let_def)

text \<open>
  C1.  A buffer handed to \<open>net_rx\<close> is not always released exactly once.  \<open>find_ring\<close>
  compares the port with the \<open>dport\<close> field, and the field of an unused slot is 0: a
  frame addressed to UDP port 0 is queued on the first unused slot.  When \<open>sys_bind\<close>
  then claims that slot, \<open>ring_init\<close> clears it: the buffer is in no queue, it was never
  passed to \<^verbatim>\<open>kfree\<close>, and no later call can reach it.
\<close>

theorem port_zero_frame_leaks:
  "\<exists>s1 s2. net_rx (boot_state\<lparr>mem := port0_frame\<rparr>) 4096 42 = Inr s1 \<and>
        freed s1 = [] \<and>
        ring_live (rings s1 ! 0) = [\<lparr>buf = 4096, sport = 0, len = 42\<rparr>] \<and>
        sys_bind s1 9000 = Inr (1, s2) \<and>
        freed s2 = [] \<and>
        rings s2 = ring_init (zero_ring\<lparr>dport := 9000\<rparr>) # replicate 99 zero_ring \<and>
        ring_live (ring_init (zero_ring\<lparr>dport := 9000\<rparr>)) = [] \<and>
        ring_live zero_ring = []"
proof -
  let ?p = "\<lparr>buf = 4096, sport = 0, len = 42\<rparr>"
  let ?s0 = "boot_state\<lparr>mem := port0_frame\<rparr>"
  let ?r1 = "zero_ring\<lparr>queue := (queue zero_ring)[0 := ?p], write_c := 1\<rparr>"
  let ?s1 = "?s0\<lparr>seen_ip := True, rings := ?r1 # replicate 99 zero_ring\<rparr>"
  let ?s2 = "?s1\<lparr>rings := ring_init (zero_ring\<lparr>dport := 9000\<rparr>) # replicate 99 zero_ring\<rparr>"
  have t: "ntohs (load16 port0_frame (4096 + eth_type)) = ETHTYPE_IP"
    by (simp add: port0_frame_def eth_type_def load16_def ntohs_def ETHTYPE_IP_def)
  have d: "ntohs (load16 port0_frame (4096 + sizeof_eth + sizeof_ip + udp_dport)) = 0"
    by (simp add: port0_frame_def sizeof_eth_def sizeof_ip_def udp_dport_def load16_def ntohs_def)
  have sp: "ntohs (load16 port0_frame (4096 + sizeof_eth + sizeof_ip + udp_sport)) = 0"
    by (simp add: port0_frame_def sizeof_eth_def sizeof_ip_def udp_sport_def load16_def ntohs_def)
  have f: "find_ring (zero_ring # replicate 99 zero_ring) 0 = Some 0"
    by (simp add: find_ring_def zero_ring_def)
  have sl: "ring_slot 0 = Inr 0"
    by (simp add: ring_slot_def ring_mod_def MAX_QUEUE_LEN_def)
  have e: "ring_enqueue zero_ring ?p = Inr (0, ?r1)"
    by (simp add: ring_enqueue_def ring_full_def ring_size_def sl MAX_QUEUE_LEN_def zero_ring_def)
  have n1: "net_rx ?s0 4096 42 = ip_rx ?s0 4096 42"
    by (rule net_rx_ip) (simp_all add: t to_uint64_def)
  have n2: "ip_rx ?s0 4096 42 =
      Inr (if (0::int) \<noteq> 0 then kfree (?s0\<lparr>seen_ip := True, rings := (rings ?s0)[0 := ?r1]\<rparr>) 4096
           else ?s0\<lparr>seen_ip := True, rings := (rings ?s0)[0 := ?r1]\<rparr>)"
    by (rule ip_rx_bound) (simp_all add: d sp rings_boot f e)
  have n: "net_rx ?s0 4096 42 = Inr ?s1"
    unfolding n1 n2 by (simp add: rings_boot)
  have fr1: "freed ?s1 = []"
    by (simp add: boot_state_def)
  have l: "ring_live (rings ?s1 ! 0) = [?p]"
    by (simp add: ring_live_def zero_ring_def MAX_QUEUE_LEN_def)
  have b: "sys_bind ?s1 9000 = Inr (1, ?s2)"
    by (simp add: sys_bind_def next_free_ring_def zero_ring_def ring_init_def)
  have fr2: "freed ?s2 = []"
    by (simp add: boot_state_def)
  have r2: "rings ?s2 = ring_init (zero_ring\<lparr>dport := 9000\<rparr>) # replicate 99 zero_ring"
    by simp
  have l2: "ring_live (ring_init (zero_ring\<lparr>dport := 9000\<rparr>)) = []"
    by (simp add: ring_live_def ring_init_def)
  have l3: "ring_live zero_ring = []"
    by (simp add: ring_live_def zero_ring_def)
  show ?thesis
    by (rule exI [of _ ?s1], rule exI [of _ ?s2]) (intro conjI n fr1 l b fr2 r2 l2 l3)
qed

text \<open>
  C3.  \<open>ip_rx\<close> reads the UDP header at \<^verbatim>\<open>ip + 1\<close>, 20 bytes after the start of the IP
  header, whatever the header length field says.  The frame \<open>options_frame\<close> has a
  header length of 24 bytes and is addressed to port 7000, which is bound; \<open>ip_rx\<close>
  looks up port 9001, which it reads in the IP options, and drops the frame.
\<close>

theorem ip_rx_fixed_udp_offset:
  "\<exists>s1. sys_bind (boot_state\<lparr>mem := options_frame\<rparr>) 7000 = Inr (1, s1) \<and>
        find_ring (rings s1) 7000 = Some 0 \<and>
        ip_ihl (mem s1) (4096 + sizeof_eth) = 24 \<and>
        ntohs (load16 (mem s1) (4096 + sizeof_eth + ip_ihl (mem s1) (4096 + sizeof_eth) + udp_dport)) = 7000 \<and>
        ntohs (load16 (mem s1) (4096 + sizeof_eth + sizeof_ip + udp_dport)) = 9001 \<and>
        net_rx s1 4096 46 = Inr (kfree (s1\<lparr>seen_ip := True\<rparr>) 4096)"
proof -
  let ?s0 = "boot_state\<lparr>mem := options_frame\<rparr>"
  let ?s1 = "?s0\<lparr>rings := ring_init (zero_ring\<lparr>dport := 7000\<rparr>) # replicate 99 zero_ring\<rparr>"
  have b: "sys_bind ?s0 7000 = Inr (1, ?s1)"
    by (simp add: sys_bind_def next_free_ring_def rings_boot zero_ring_def)
  have f: "find_ring (rings ?s1) 7000 = Some 0"
    by (simp add: find_ring_def ring_init_def)
  have g: "find_ring (rings ?s1) 9001 = None"
    by (simp add: find_ring_def ring_init_def find_dport_replicate_None zero_ring_def)
  have m: "mem ?s1 = options_frame" by simp
  have i: "ip_ihl (mem ?s1) (4096 + sizeof_eth) = 24"
    unfolding m by (simp add: ip_ihl_def options_frame_def sizeof_eth_def ip_vhl_def)
  have p1: "ntohs (load16 (mem ?s1) (4096 + sizeof_eth + ip_ihl (mem ?s1) (4096 + sizeof_eth) + udp_dport)) = 7000"
    unfolding i unfolding m
    by (simp add: options_frame_def sizeof_eth_def udp_dport_def load16_def ntohs_def)
  have p2: "ntohs (load16 (mem ?s1) (4096 + sizeof_eth + sizeof_ip + udp_dport)) = 9001"
    unfolding m
    by (simp add: options_frame_def sizeof_eth_def sizeof_ip_def udp_dport_def load16_def ntohs_def)
  have t: "ntohs (load16 (mem ?s1) (4096 + eth_type)) = ETHTYPE_IP"
    unfolding m
    by (simp add: options_frame_def eth_type_def load16_def ntohs_def ETHTYPE_IP_def)
  have n: "net_rx ?s1 4096 46 = Inr (kfree (?s1\<lparr>seen_ip := True\<rparr>) 4096)"
    using g p2 t
    by (simp add: net_rx_def ETHTYPE_IP_def ETHTYPE_ARP_def to_uint64_def sizeof_eth_def
        sizeof_arp_def sizeof_ip_def ip_rx_def Let_def)
  show ?thesis
    by (rule exI [of _ ?s1]) (intro conjI b f i p1 p2 n)
qed



section \<open>Properties of the checksum\<close>

lemma cksum_loop_word_sum:
  "cksum_loop bs acc mod 2 ^ 32 = (acc + word_sum bs) mod 2 ^ 32"
proof (induction bs acc rule: cksum_loop.induct)
  case (1 b0 b1 bs acc)
  have "cksum_loop (b0 # b1 # bs) acc mod 2 ^ 32
      = ((acc + (unat b0 + 256 * unat b1)) mod 2 ^ 32 + word_sum bs) mod 2 ^ 32"
    using 1 by simp
  also have "\<dots> = (acc + (unat b0 + 256 * unat b1) + word_sum bs) mod 2 ^ 32"
    by (rule mod_add_left_eq)
  finally show ?case by (simp add: add.assoc)
next
  case (2 b acc)
  show ?case by simp
next
  case (3 acc)
  show ?case by simp
qed

lemma byte_bound: "unat (b :: 8 word) < 256"
  using unsigned_less [of b, where 'a = nat] by simp

lemma word_sum_bound: "word_sum bs \<le> 65535 * ((length bs + 1) div 2)"
proof (induction bs rule: word_sum.induct)
  case (1 b0 b1 bs)
  have "unat b0 < 256" "unat b1 < 256"
    using byte_bound [of b0] byte_bound [of b1] .
  then show ?case using 1 by simp
next
  case (2 b)
  have "unat b < 256" by (rule byte_bound)
  then show ?case by simp
next
  case 3
  show ?case by simp
qed

lemma word_sum_small:
  assumes "length bs \<le> 131072"
  shows "word_sum bs < 2 ^ 32"
proof -
  have "(length bs + 1) div 2 \<le> 65536"
    using assms by simp
  then have "65535 * ((length bs + 1) div 2) \<le> 65535 * 65536"
    by (rule mult_le_mono2)
  then show ?thesis
    using word_sum_bound [of bs] by simp
qed

lemma cksum_loop_eq:
  assumes "length bs \<le> 131072"
  shows "cksum_loop bs 0 = word_sum bs"
proof -
  have "acc < 2 ^ 32 \<Longrightarrow> cksum_loop bs acc < 2 ^ 32" for acc
    by (induction bs acc rule: cksum_loop.induct) simp_all
  then have "cksum_loop bs 0 mod 2 ^ 32 = cksum_loop bs 0"
    by simp
  moreover have "(0 + word_sum bs) mod 2 ^ 32 = word_sum bs"
    using word_sum_small [OF assms] by simp
  ultimately show ?thesis
    using cksum_loop_word_sum [of bs 0] by (simp only:)
qed

lemma fold_step_mod: "(n mod 65536 + n div 65536) mod 65535 = n mod (65535::nat)"
proof -
  define q r where "q = n div 65536" and "r = n mod 65536"
  have "n = q * 65536 + r" by (simp add: q_def r_def)
  also have "\<dots> = (r + q) + 65535 * q" by simp
  finally have "n mod 65535 = ((r + q) + 65535 * q) mod 65535" by simp
  also have "\<dots> = (r + q) mod 65535" by (rule mod_mult_self2)
  finally show ?thesis by (simp add: q_def r_def)
qed

lemma fold_carries_mod: "fold_carries n mod 65535 = n mod 65535"
proof (induction n rule: fold_carries.induct)
  case (1 n)
  show ?case
  proof (cases "n < 65536")
    case True
    then show ?thesis by (subst fold_carries.simps) simp
  next
    case False
    then have "fold_carries n = fold_carries (n mod 65536 + n div 65536)"
      by (subst fold_carries.simps) simp
    then show ?thesis
      using 1 [OF False] fold_step_mod [of n] by simp
  qed
qed

lemma fold_carries_less: "fold_carries n < 65536"
proof (induction n rule: fold_carries.induct)
  case (1 n)
  show ?case
  proof (cases "n < 65536")
    case True
    then show ?thesis by (subst fold_carries.simps) simp
  next
    case False
    then show ?thesis
      using 1 [OF False] by (subst fold_carries.simps) simp
  qed
qed

lemma fold_carries_zero: "fold_carries n = 0 \<longleftrightarrow> n = 0"
proof (induction n rule: fold_carries.induct)
  case (1 n)
  show ?case
  proof (cases "n < 65536")
    case True
    then show ?thesis by (subst fold_carries.simps) simp
  next
    case False
    then have "0 < n div 65536"
      by (simp add: div_greater_zero_iff)
    then have "n mod 65536 + n div 65536 \<noteq> 0" by simp
    then show ?thesis
      using 1 [OF False] False by (subst fold_carries.simps) simp
  qed
qed

lemma fold_carries_le: "fold_carries n \<le> n"
proof (induction n rule: fold_carries.induct)
  case (1 n)
  show ?case
  proof (cases "n < 65536")
    case True
    then show ?thesis by (subst fold_carries.simps) simp
  next
    case False
    define q r where "q = n div 65536" and "r = n mod 65536"
    have n: "n = q * 65536 + r" by (simp add: q_def r_def)
    have "r + q \<le> q * 65536 + r" by simp
    then have "r + q \<le> n" by (simp only: n [symmetric])
    then have "n mod 65536 + n div 65536 \<le> n" unfolding q_def r_def .
    then show ?thesis
      using 1 [OF False] False by (subst fold_carries.simps) simp
  qed
qed



lemma fold_carries_small: "n < 65536 \<Longrightarrow> fold_carries n = n"
  by (subst fold_carries.simps) simp

lemma cksum_fold_carries:
  assumes "n < 2 ^ 32"
  shows "cksum_fold n < 2 ^ 32" and "cksum_fold n mod 65536 = fold_carries n"
proof -
  define a where "a = n mod 65536 + n div 65536"
  have "n div 65536 < 65536"
    using assms by (simp add: div_less_iff_less_mult)
  moreover have "n mod 65536 < 65536" by simp
  ultimately have a: "a < 131071" unfolding a_def by linarith
  have cf: "cksum_fold n = a + a div 65536"
    using a by (simp add: cksum_fold_def Let_def a_def [symmetric])
  have "a div 65536 < 2"
    using a by (simp add: div_less_iff_less_mult)
  then have d: "a div 65536 \<le> 1"
    by simp
  show "cksum_fold n < 2 ^ 32"
    using a d by (simp add: cf)
  show "cksum_fold n mod 65536 = fold_carries n"
  proof (cases "n < 65536")
    case True
    then have "a = n" by (simp add: a_def)
    then show ?thesis
      using True by (simp add: cf fold_carries_small)
  next
    case False
    then have f1: "fold_carries n = fold_carries a"
      by (subst fold_carries.simps) (simp add: a_def)
    show ?thesis
    proof (cases "a < 65536")
      case True
      then show ?thesis by (simp add: cf f1 fold_carries_small)
    next
      case False
      then have a1: "a div 65536 = 1" and a2: "a mod 65536 = a - 65536"
        using a by (simp_all add: div_nat_eqI mod_if)
      have "fold_carries a = fold_carries (a mod 65536 + a div 65536)"
        using False by (subst fold_carries.simps) simp
      also have "\<dots> = a - 65535"
        using a False by (simp add: a1 a2 fold_carries_small)
      finally have "fold_carries a = a - 65535" .
      moreover have "(a + 1) mod 65536 = a - 65535"
        using a False by (simp add: mod_if)
      ultimately show ?thesis
        by (simp add: cf f1 a1)
    qed
  qed
qed

lemma complement16:
  assumes "s < 2 ^ 32"
  shows "(2 ^ 32 - 1 - s) mod 65536 = 65535 - s mod (65536::nat)"
proof -
  define q r where "q = s div 65536" and "r = s mod 65536"
  have s: "s = q * 65536 + r" by (simp add: q_def r_def)
  have r: "r < 65536" by (simp add: r_def)
  have q: "q < 65536"
    using assms by (simp add: q_def div_less_iff_less_mult)
  have "(2::nat) ^ 32 - 1 - s = (65535 - q) * 65536 + (65535 - r)"
    using q r by (simp add: s algebra_simps)
  also have "\<dots> mod 65536 = (65535 - r) mod 65536"
    by simp
  also have "\<dots> = 65535 - r"
    by simp
  finally show ?thesis by (simp add: r_def)
qed

lemma cksum_verify_eq:
  assumes "length bs \<le> 131072"
  shows "cksum_verify bs = fold_carries (word_sum bs)"
  using cksum_fold_carries(2) [OF word_sum_small [OF assms]]
  by (simp add: cksum_verify_def cksum_loop_eq [OF assms])

lemma in_cksum_refines:
  assumes "length bs \<le> 131072"
  shows "in_cksum bs = ones_complement_cksum bs"
proof -
  have "in_cksum bs = 65535 - cksum_fold (word_sum bs) mod 65536"
    unfolding in_cksum_def cksum_loop_eq [OF assms]
    by (rule complement16) (rule cksum_fold_carries(1) [OF word_sum_small [OF assms]])
  then show ?thesis
    by (simp add: ones_complement_cksum_def cksum_fold_carries(2) [OF word_sum_small [OF assms]])
qed


lemma word_sum_update:
  assumes "even i" and "Suc i < length xs"
  shows "word_sum (xs[i := a, Suc i := b]) + (unat (xs ! i) + 256 * unat (xs ! Suc i))
       = word_sum xs + (unat a + 256 * unat b)"
  using assms
proof (induction xs arbitrary: i rule: word_sum.induct)
  case (1 b0 b1 bs)
  show ?case
  proof (cases i)
    case 0
    then show ?thesis by simp
  next
    case (Suc j)
    then obtain k where k: "i = Suc (Suc k)"
      using "1.prems"(1) by (cases j) auto
    have "even k" and "Suc k < length bs"
      using "1.prems" by (simp_all add: k)
    then show ?thesis
      using "1.IH" [of k] by (simp add: k)
  qed
next
  case (2 b)
  then show ?case by simp
next
  case 3
  then show ?case by simp
qed

lemma word_sum_set_ip_sum:
  assumes "12 \<le> length hdr" and "hdr ! ip_sum = 0" and "hdr ! (ip_sum + 1) = 0" and "v < 65536"
  shows "word_sum (set_ip_sum hdr v) = word_sum hdr + v"
proof -
  have lo: "unat (of_nat v :: 8 word) = v mod 256"
    by (simp add: unat_of_nat)
  have "v div 256 < 256"
    using assms(4) by (simp add: div_less_iff_less_mult)
  then have hi: "unat (of_nat (v div 256) :: 8 word) = v div 256"
    by (simp add: unat_of_nat)
  have "word_sum (hdr[10 := of_nat v, Suc 10 := of_nat (v div 256)])
          + (unat (hdr ! 10) + 256 * unat (hdr ! Suc 10))
      = word_sum hdr + (unat (of_nat v :: 8 word) + 256 * unat (of_nat (v div 256) :: 8 word))"
    using assms(1) by (intro word_sum_update) simp_all
  moreover have "hdr ! 10 = 0" "hdr ! Suc 10 = 0"
    using assms(2,3) by (simp_all add: ip_sum_def)
  ultimately show ?thesis
    by (simp add: set_ip_sum_def ip_sum_def lo hi)
qed

text \<open>
  C4, as amended.  The function \<open>in_cksum\<close> is the one's-complement sum of the
  specification: the 16-bit words added, an odd trailing byte zero-extended, the carries
  folded back, the result complemented.  For every header whose checksum field is zero
  when its checksum is computed, as in \<open>sys_send\<close>, storing the checksum in the field
  and summing the whole header again folds to \<^verbatim>\<open>0xFFFF\<close>.
\<close>

theorem checksum_round_trip:
  assumes len: "12 \<le> length hdr" "length hdr \<le> 131072"
    and z: "hdr ! ip_sum = 0" "hdr ! (ip_sum + 1) = 0"
  shows "in_cksum hdr = ones_complement_cksum hdr \<and>
         cksum_verify (set_ip_sum hdr (in_cksum hdr)) = 0xFFFF"
proof -
  define S where "S = word_sum hdr"
  define F where "F = fold_carries S"
  have r: "in_cksum hdr = ones_complement_cksum hdr"
    by (rule in_cksum_refines [OF len(2)])
  have c: "in_cksum hdr = 65535 - F"
    by (simp add: r ones_complement_cksum_def F_def S_def)
  have F1: "F < 65536" and F2: "F \<le> S" and F3: "F mod 65535 = S mod 65535"
    and F4: "F = 0 \<longleftrightarrow> S = 0"
    unfolding F_def
    by (rule fold_carries_less, rule fold_carries_le, rule fold_carries_mod, rule fold_carries_zero)
  have l': "length (set_ip_sum hdr (65535 - F)) \<le> 131072"
    using len(2) by (simp add: set_ip_sum_def)
  have "word_sum (set_ip_sum hdr (65535 - F)) = S + (65535 - F)"
    unfolding S_def by (rule word_sum_set_ip_sum [OF len(1) z]) simp
  then have v: "cksum_verify (set_ip_sum hdr (65535 - F)) = fold_carries (S + (65535 - F))"
    by (simp add: cksum_verify_eq [OF l'])
  define T where "T = S + (65535 - F)"
  have "65535 dvd S - F"
    using mod_eq_dvd_iff_nat [OF F2, of 65535] F3 by simp
  then have "65535 dvd (S - F) + 65535"
    by simp
  moreover have "(S - F) + 65535 = T"
    using F1 F2 by (simp add: T_def)
  ultimately have "T mod 65535 = 0"
    by simp
  then have m: "fold_carries T mod 65535 = 0"
    by (simp add: fold_carries_mod)
  have "T \<noteq> 0"
    using F1 F4 by (auto simp: T_def)
  then have nz: "fold_carries T \<noteq> 0"
    by (simp add: fold_carries_zero)
  have lt: "fold_carries T < 65536"
    by (rule fold_carries_less)
  have ft: "fold_carries T = 65535"
  proof -
    obtain k where k: "fold_carries T = 65535 * k"
      using m by (auto simp: mod_eq_0_iff_dvd)
    have "k \<noteq> 0" using nz k by auto
    moreover have "k < 2"
    proof (rule ccontr)
      assume "\<not> k < 2"
      then have "65535 * 2 \<le> 65535 * k" by simp
      then show False using lt k by simp
    qed
    ultimately have "k = 1" by simp
    then show ?thesis by (simp add: k)
  qed
  have "cksum_verify (set_ip_sum hdr (in_cksum hdr)) = 65535"
    unfolding c v T_def [symmetric] by (rule ft)
  then show ?thesis
    using r by simp
qed

theorem checksum_round_trip_witness:
  "12 \<le> length fresh_hdr \<and> length fresh_hdr \<le> 131072 \<and>
   fresh_hdr ! ip_sum = 0 \<and> fresh_hdr ! (ip_sum + 1) = 0 \<and>
   in_cksum fresh_hdr = ones_complement_cksum fresh_hdr \<and>
   cksum_verify (set_ip_sum fresh_hdr (in_cksum fresh_hdr)) = 0xFFFF"
proof -
  have h: "12 \<le> length fresh_hdr" "length fresh_hdr \<le> 131072"
      "fresh_hdr ! ip_sum = 0" "fresh_hdr ! (ip_sum + 1) = 0"
    by (simp_all add: fresh_hdr_def ip_sum_def)
  show ?thesis
    using checksum_round_trip [OF h] h by blast
qed

text \<open>
  C4, as stated, fails for a header whose checksum field is not zero when the checksum is
  computed: the field is part of the sum.
\<close>

theorem checksum_stale_field:
  "in_cksum stale_hdr = 0x8D2C \<and>
   cksum_verify (set_ip_sum stale_hdr (in_cksum stale_hdr)) = 0xCBED \<and>
   cksum_verify (set_ip_sum stale_hdr (in_cksum stale_hdr)) \<noteq> 0xFFFF"
  by (simp add: stale_hdr_def in_cksum_def cksum_verify_def set_ip_sum_def ip_sum_def cksum_fold_def)

section \<open>Properties of the driver\<close>

lemma kfree_device [simp]: "rx_ring (kfree s a) = rx_ring s" "regs (kfree s a) = regs s"
  by (simp_all add: kfree_def)

lemma kalloc_device:
  "kalloc s = (a, s') \<Longrightarrow> rx_ring s' = rx_ring s \<and> regs s' = regs s"
  by (auto simp: kalloc_def split: list.splits)

lemma ip_rx_device:
  "ip_rx s b n = Inr s' \<Longrightarrow> rx_ring s' = rx_ring s \<and> regs s' = regs s"
  by (auto simp: ip_rx_def Let_def split: option.splits sum.splits if_splits)

lemma arp_rx_device:
  "arp_rx s b = Inr s' \<Longrightarrow> rx_ring s' = rx_ring s \<and> regs s' = regs s"
  by (auto simp: arp_rx_def Let_def e1000_transmit_def dest: kalloc_device
      split: if_splits prod.splits)

lemma net_rx_device:
  "net_rx s b n = Inr s' \<Longrightarrow> rx_ring s' = rx_ring s \<and> regs s' = regs s"
  by (auto simp: net_rx_def Let_def dest: arp_rx_device ip_rx_device split: if_splits)


lemma rx_next_mod: "rx_next s = (unat (regs s E1000_RDT) + 1) mod RX_RING_SIZE"
proof -
  let ?t = "regs s E1000_RDT"
  have "unat ((?t + 1) mod 16) = unat (?t + 1) mod 16"
    by (simp add: unat_mod)
  also have "unat (?t + 1) = (unat ?t + 1) mod 2 ^ 32"
    by (simp add: unat_word_ariths)
  also have "(unat ?t + 1) mod 2 ^ 32 mod 16 = (unat ?t + 1) mod 16"
    by (simp add: mod_mod_cancel)
  finally show ?thesis
    by (simp add: rx_next_def RX_RING_SIZE_def)
qed

lemma rx_next_less: "rx_next s < RX_RING_SIZE"
  by (simp add: rx_next_mod RX_RING_SIZE_def)

lemma rx_next_set_reg:
  assumes "i < RX_RING_SIZE"
  shows "rx_next (set_reg s E1000_RDT (of_nat i)) = (i + 1) mod RX_RING_SIZE"
proof -
  have "unat (of_nat i :: 32 word) = i"
    using assms by (simp add: unat_of_nat RX_RING_SIZE_def)
  then show ?thesis
    by (simp add: rx_next_mod set_reg_def)
qed

lemma e1000_recv_body_Some:
  assumes "e1000_recv_body dev s = Inr (Some s')"
  shows "rx_done dev (rx_ring s ! rx_next s)" and "rx_eop dev (rx_ring s ! rx_next s)"
    and "rx_next s' = (rx_next s + 1) mod RX_RING_SIZE"
    and "i \<noteq> rx_next s \<Longrightarrow> rx_ring s' ! i = rx_ring s ! i"
proof -
  let ?d = "rx_ring s ! rx_next s"
  from assms show d: "rx_done dev ?d" and e: "rx_eop dev ?d"
    by (auto simp: e1000_recv_body_def Let_def split: if_splits)
  from assms d e obtain s1 a s2 where
    n: "net_rx s (rx_addr ?d) (int (rx_length ?d)) = Inr s1" and k: "kalloc s1 = (a, s2)"
    and s': "s' = set_reg (s2\<lparr>rx_ring := (rx_ring s2)[rx_next s := (rx_ring s2 ! rx_next s)\<lparr>rx_addr := a, rx_status := 0\<rparr>]\<rparr>)
                    E1000_RDT (of_nat (rx_next s))"
    by (auto simp: e1000_recv_body_def Let_def split: sum.splits prod.splits)
  have r: "rx_ring s2 = rx_ring s"
    using net_rx_device [OF n] kalloc_device [OF k] by simp
  show "rx_next s' = (rx_next s + 1) mod RX_RING_SIZE"
    unfolding s' by (rule rx_next_set_reg) (rule rx_next_less)
  show "rx_ring s' ! i = rx_ring s ! i" if "i \<noteq> rx_next s"
    using that by (simp add: s' set_reg_def r)
qed

lemma ring_index_distinct:
  assumes "a < RX_RING_SIZE" and "0 < j" and "j < RX_RING_SIZE"
  shows "(a + j) mod RX_RING_SIZE \<noteq> a"
proof
  assume "(a + j) mod RX_RING_SIZE = a"
  then have "(a + j) mod RX_RING_SIZE = a mod RX_RING_SIZE"
    using assms(1) by simp
  then have "RX_RING_SIZE dvd (a + j) - a"
    by (metis mod_eq_dvd_iff_nat le_add1)
  then have "RX_RING_SIZE dvd j" by simp
  then show False
    using assms(2,3) by (auto dest: dvd_imp_le)
qed

lemma e1000_recv_loop_run:
  assumes "e1000_recv_loop dev n i s = Inr (k, s')" and "n \<le> RX_RING_SIZE"
  shows "i \<le> k \<and> k \<le> i + n \<and>
         (\<forall>j < k - i. rx_done dev (rx_ring s ! ((rx_next s + j) mod RX_RING_SIZE)) \<and>
                      rx_eop dev (rx_ring s ! ((rx_next s + j) mod RX_RING_SIZE))) \<and>
         (k < i + n \<longrightarrow> \<not> rx_done dev (rx_ring s ! ((rx_next s + (k - i)) mod RX_RING_SIZE)))"
  using assms
proof (induction n arbitrary: i s)
  case 0
  then show ?case by simp
next
  case (Suc n)
  have a: "rx_next s < RX_RING_SIZE" by (rule rx_next_less)
  show ?case
  proof (cases "e1000_recv_body dev s")
    case (Inl f)
    then show ?thesis using Suc.prems(1) by simp
  next
    case (Inr o1)
    show ?thesis
    proof (cases o1)
      case None
      then have "k = i" "s' = s"
        using Suc.prems(1) Inr by simp_all
      moreover have "\<not> rx_done dev (rx_ring s ! rx_next s)"
        using Inr None by (auto simp: e1000_recv_body_def Let_def split: if_splits sum.splits prod.splits)
      ultimately show ?thesis using a by simp
    next
      case (Some s1)
      note b = e1000_recv_body_Some [OF Inr [unfolded Some]]
      have l: "e1000_recv_loop dev n (Suc i) s1 = Inr (k, s')"
        using Suc.prems(1) Inr Some by simp
      have n16: "n \<le> RX_RING_SIZE" using Suc.prems(2) by simp
      note ih = Suc.IH [OF l n16]
      have ih3: "rx_done dev (rx_ring s1 ! ((rx_next s1 + j) mod RX_RING_SIZE)) \<and>
                 rx_eop dev (rx_ring s1 ! ((rx_next s1 + j) mod RX_RING_SIZE))" if "j < k - Suc i" for j
        using ih that by blast
      have ih4: "\<not> rx_done dev (rx_ring s1 ! ((rx_next s1 + (k - Suc i)) mod RX_RING_SIZE))"
        if "k < Suc i + n"
        using ih that by blast
      have shift: "rx_ring s1 ! ((rx_next s1 + j) mod RX_RING_SIZE)
                 = rx_ring s ! ((rx_next s + Suc j) mod RX_RING_SIZE)" if "Suc j < RX_RING_SIZE" for j
      proof -
        have "(rx_next s1 + j) mod RX_RING_SIZE = (rx_next s + Suc j) mod RX_RING_SIZE"
          by (simp add: b(3) mod_add_left_eq)
        moreover have "(rx_next s + Suc j) mod RX_RING_SIZE \<noteq> rx_next s"
          using that by (intro ring_index_distinct a) simp_all
        ultimately show ?thesis
          using b(4) by simp
      qed
      have ki: "Suc i \<le> k" "k \<le> Suc i + n" using ih by simp_all
      have "rx_done dev (rx_ring s ! ((rx_next s + j) mod RX_RING_SIZE)) \<and>
            rx_eop dev (rx_ring s ! ((rx_next s + j) mod RX_RING_SIZE))" if "j < k - i" for j
      proof (cases j)
        case 0
        then show ?thesis using b(1,2) a by simp
      next
        case (Suc j')
        then have "j' < k - Suc i" using that by simp
        moreover have "Suc j' < RX_RING_SIZE"
          using that Suc ki Suc.prems(2) by simp
        ultimately show ?thesis
          using ih3 [of j'] shift [of j'] Suc by simp
      qed
      moreover have "\<not> rx_done dev (rx_ring s ! ((rx_next s + (k - i)) mod RX_RING_SIZE))"
        if "k < i + Suc n"
      proof -
        have "Suc (k - Suc i) < RX_RING_SIZE"
          using that ki Suc.prems(2) by simp
        then have "rx_ring s1 ! ((rx_next s1 + (k - Suc i)) mod RX_RING_SIZE)
                 = rx_ring s ! ((rx_next s + Suc (k - Suc i)) mod RX_RING_SIZE)"
          by (rule shift)
        moreover have "Suc (k - Suc i) = k - i"
          using ki by simp
        moreover have "k < Suc i + n" using that by simp
        ultimately show ?thesis
          using ih4 by simp
      qed
      ultimately show ?thesis
        using ki by simp
    qed
  qed
qed


lemma e1000_recv_body_stop:
  "\<not> rx_done dev (rx_ring s ! rx_next s) \<Longrightarrow> e1000_recv_body dev s = Inr None"
  by (simp add: e1000_recv_body_def Let_def)

lemma e1000_recv_body_panic:
  "rx_done dev (rx_ring s ! rx_next s) \<Longrightarrow> \<not> rx_eop dev (rx_ring s ! rx_next s) \<Longrightarrow>
   e1000_recv_body dev s = Inl Panic"
  by (simp add: e1000_recv_body_def Let_def)

lemma e1000_recv_loop_unfold:
  assumes "0 < n"
  shows "e1000_recv_loop dev n i s =
     (case e1000_recv_body dev s of
        Inl f \<Rightarrow> Inl f
      | Inr None \<Rightarrow> Inr (i, s)
      | Inr (Some s') \<Rightarrow> e1000_recv_loop dev (n - 1) (Suc i) s')"
  using assms by (cases n) (simp_all split: sum.splits option.splits)

lemma e1000_recv_unfold:
  "e1000_recv dev s =
     (case e1000_recv_body dev s of
        Inl f \<Rightarrow> Inl f
      | Inr None \<Rightarrow> Inr (0, s)
      | Inr (Some s') \<Rightarrow> e1000_recv_loop dev 15 1 s')"
  unfolding e1000_recv_def
  by (subst e1000_recv_loop_unfold) (simp_all add: RX_RING_SIZE_def split: sum.splits option.splits)

lemma rx_next_idle [simp]: "rx_next rx_idle = 0" "rx_next (rx_frame st) = 0"
  by (simp_all add: rx_frame_def rx_idle_def rx_next_def set_reg_def RX_RING_SIZE_def)

lemma rx_ring_frame [simp]:
  "rx_ring rx_idle = zero_rx_desc # replicate 15 zero_rx_desc"
  "rx_ring (rx_frame st) = \<lparr>rx_addr = 4096, rx_length = 60, rx_status = st\<rparr> # replicate 15 zero_rx_desc"
  by (simp_all add: rx_frame_def rx_idle_def set_reg_def boot_state_def RX_RING_SIZE_def numeral_eq_Suc)

lemma net_rx_unknown:
  assumes "ntohs (load16 (mem s) (b + eth_type)) \<noteq> ETHTYPE_ARP"
    and "ntohs (load16 (mem s) (b + eth_type)) \<noteq> ETHTYPE_IP"
  shows "net_rx s b n = Inr (kfree s b)"
  using assms by (simp add: net_rx_def Let_def)

lemma mem_frame [simp]: "mem (rx_frame st) = (\<lambda>a. 0)" "kalloc_pool (rx_frame st) = []"
  by (simp_all add: rx_frame_def rx_idle_def set_reg_def boot_state_def)

lemma net_rx_frame: "net_rx (rx_frame st) 4096 60 = Inr (kfree (rx_frame st) 4096)"
  by (rule net_rx_unknown) (simp_all add: load16_def ntohs_def ETHTYPE_ARP_def ETHTYPE_IP_def)

lemma body_frame: "e1000_recv_body dev_8254x (rx_frame 3) = Inr (Some rx_after)"
  by (simp add: e1000_recv_body_def Let_def rx_done_def rx_eop_def dev_8254x_def net_rx_frame
      kalloc_def kfree_def rx_after_def)

lemma recv_frame: "e1000_recv dev_8254x (rx_frame 3) = Inr (1, rx_after)"
proof -
  have "rx_next rx_after = 1"
    by (simp add: rx_after_def rx_next_def set_reg_def RX_RING_SIZE_def)
  moreover have "rx_ring rx_after ! 1 = zero_rx_desc"
    by (simp add: rx_after_def set_reg_def)
  ultimately have "e1000_recv_body dev_8254x rx_after = Inr None"
    by (intro e1000_recv_body_stop) (simp add: rx_done_def zero_rx_desc_def dev_8254x_def)
  then have "e1000_recv_loop dev_8254x 15 1 rx_after = Inr (1, rx_after)"
    by (subst e1000_recv_loop_unfold) simp_all
  then show ?thesis
    by (simp add: e1000_recv_unfold body_frame)
qed

lemma init_rx_bufs_panic:
  assumes "length (kalloc_pool s) < n \<or> 0 \<in> set (take n (kalloc_pool s))"
  shows "init_rx_bufs n i s = Inl Panic"
  using assms
proof (induction n arbitrary: i s)
  case 0
  then show ?case by simp
next
  case (Suc n)
  show ?case
  proof (cases "kalloc_pool s")
    case Nil
    then show ?thesis by (simp add: kalloc_def)
  next
    case (Cons a as)
    show ?thesis
    proof (cases "a = 0")
      case True
      then show ?thesis using Cons by (simp add: kalloc_def)
    next
      case False
      let ?s1 = "s\<lparr>kalloc_pool := as\<rparr>"
      let ?s2 = "?s1\<lparr>rx_bufs := (rx_bufs ?s1)[i := a],
                      rx_ring := (rx_ring ?s1)[i := (rx_ring ?s1 ! i)\<lparr>rx_addr := a\<rparr>]\<rparr>"
      have "length (kalloc_pool ?s2) < n \<or> 0 \<in> set (take n (kalloc_pool ?s2))"
        using Suc.prems Cons False by auto
      then have "init_rx_bufs n (Suc i) ?s2 = Inl Panic"
        by (rule Suc.IH)
      then show ?thesis
        using Cons False by (simp add: kalloc_def)
    qed
  qed
qed

lemma e1000_init_panic:
  assumes "length (kalloc_pool s) < RX_RING_SIZE \<or> 0 \<in> set (take RX_RING_SIZE (kalloc_pool s))"
  shows "e1000_init dev s = Inl Panic"
proof -
  have "init_rx_bufs RX_RING_SIZE 0 s' = Inl Panic" if "kalloc_pool s' = kalloc_pool s" for s'
    using assms that by (intro init_rx_bufs_panic) simp
  then show ?thesis
    by (simp add: e1000_init_def Let_def set_reg_def)
qed

text \<open>
  C6.  One call of \<open>e1000_recv\<close> stops at the first descriptor after the tail whose
  "done" bit is clear: when that is the descriptor right after the tail, nothing is
  processed; in general the call that returns has processed \<open>k\<close> descriptors,
  \<open>k\<close> at most the ring length 16, the \<open>k\<close> descriptors after the tail had "done" and
  "end of packet" set, and when \<open>k < 16\<close> the next one has "done" clear.  A descriptor
  with "done" set and "end of packet" clear is a panic, in the round that meets it.
\<close>

theorem e1000_recv_stops:
  "(\<not> rx_done dev (rx_ring sa ! rx_next sa) \<longrightarrow>
      e1000_recv_body dev sa = Inr None \<and> e1000_recv dev sa = Inr (0, sa)) \<and>
   (rx_done dev (rx_ring sb ! rx_next sb) \<and> \<not> rx_eop dev (rx_ring sb ! rx_next sb) \<longrightarrow>
      e1000_recv_body dev sb = Inl Panic \<and> e1000_recv dev sb = Inl Panic) \<and>
   (e1000_recv dev s = Inr (k, s') \<longrightarrow>
      k \<le> RX_RING_SIZE \<and>
      (\<forall>j < k. rx_done dev (rx_ring s ! ((rx_next s + j) mod RX_RING_SIZE)) \<and>
               rx_eop dev (rx_ring s ! ((rx_next s + j) mod RX_RING_SIZE))) \<and>
      (k < RX_RING_SIZE \<longrightarrow> \<not> rx_done dev (rx_ring s ! ((rx_next s + k) mod RX_RING_SIZE))))"
proof (intro conjI impI)
  assume "\<not> rx_done dev (rx_ring sa ! rx_next sa)"
  then show "e1000_recv_body dev sa = Inr None" by (rule e1000_recv_body_stop)
  then show "e1000_recv dev sa = Inr (0, sa)" by (simp add: e1000_recv_unfold)
next
  assume "rx_done dev (rx_ring sb ! rx_next sb) \<and> \<not> rx_eop dev (rx_ring sb ! rx_next sb)"
  then show "e1000_recv_body dev sb = Inl Panic" by (simp add: e1000_recv_body_panic)
  then show "e1000_recv dev sb = Inl Panic" by (simp add: e1000_recv_unfold)
next
  assume "e1000_recv dev s = Inr (k, s')"
  then have l: "e1000_recv_loop dev RX_RING_SIZE 0 s = Inr (k, s')"
    by (simp add: e1000_recv_def)
  note r = e1000_recv_loop_run [OF l order_refl]
  from r show "k \<le> RX_RING_SIZE" by simp
  from r show "\<forall>j < k. rx_done dev (rx_ring s ! ((rx_next s + j) mod RX_RING_SIZE)) \<and>
               rx_eop dev (rx_ring s ! ((rx_next s + j) mod RX_RING_SIZE))" by simp
  from r show "\<not> rx_done dev (rx_ring s ! ((rx_next s + k) mod RX_RING_SIZE))" if "k < RX_RING_SIZE"
    using that by simp
qed

theorem e1000_recv_stops_witness:
  "(\<not> rx_done dev_8254x (rx_ring rx_idle ! rx_next rx_idle) \<and>
      e1000_recv_body dev_8254x rx_idle = Inr None \<and> e1000_recv dev_8254x rx_idle = Inr (0, rx_idle)) \<and>
   (rx_done dev_8254x (rx_ring (rx_frame 1) ! rx_next (rx_frame 1)) \<and>
    \<not> rx_eop dev_8254x (rx_ring (rx_frame 1) ! rx_next (rx_frame 1)) \<and>
      e1000_recv_body dev_8254x (rx_frame 1) = Inl Panic \<and>
      e1000_recv dev_8254x (rx_frame 1) = Inl Panic) \<and>
   (e1000_recv dev_8254x (rx_frame 3) = Inr (1, rx_after) \<and>
      (1::nat) \<le> RX_RING_SIZE \<and>
      rx_done dev_8254x (rx_ring (rx_frame 3) ! 0) \<and> rx_eop dev_8254x (rx_ring (rx_frame 3) ! 0) \<and>
      \<not> rx_done dev_8254x (rx_ring (rx_frame 3) ! 1))"
proof -
  have a: "\<not> rx_done dev_8254x (rx_ring rx_idle ! rx_next rx_idle)"
    by (simp add: rx_done_def zero_rx_desc_def dev_8254x_def)
  have b: "rx_done dev_8254x (rx_ring (rx_frame 1) ! rx_next (rx_frame 1)) \<and>
           \<not> rx_eop dev_8254x (rx_ring (rx_frame 1) ! rx_next (rx_frame 1))"
    by (simp add: rx_done_def rx_eop_def dev_8254x_def)
  have c: "e1000_recv dev_8254x (rx_frame 3) = Inr (1, rx_after)"
    by (rule recv_frame)
  show ?thesis
    using e1000_recv_stops [of dev_8254x rx_idle "rx_frame 1" "rx_frame 3" 1 rx_after] a b c
    by (simp add: RX_RING_SIZE_def)
qed


text \<open>
  C9.  In \<open>e1000_recv\<close> the page returned by \<open>kalloc\<close> is stored in the descriptor
  unchecked: whatever address \<open>a\<close> the allocator returns, the null pointer included, the
  round ends normally, the allocator has been called, the descriptor has the buffer
  address \<open>a\<close> and a cleared status, and its index is written to the tail register.  So
  when the allocator fails, a descriptor with the buffer address 0 is handed to the
  device.  The same failure during \<open>e1000_init\<close> is a panic.
\<close>

theorem e1000_recv_unchecked_kalloc:
  assumes d: "rx_done dev (rx_ring s ! rx_next s)" "rx_eop dev (rx_ring s ! rx_next s)"
    and n: "net_rx s (rx_addr (rx_ring s ! rx_next s)) (int (rx_length (rx_ring s ! rx_next s))) = Inr s1"
    and k: "kalloc s1 = (a, s2)"
    and l: "length (rx_ring s) = RX_RING_SIZE"
    and p: "length (kalloc_pool s0) < RX_RING_SIZE \<or> 0 \<in> set (take RX_RING_SIZE (kalloc_pool s0))"
  shows "(\<exists>s'. e1000_recv_body dev s = Inr (Some s') \<and>
               rx_addr (rx_ring s' ! rx_next s) = a \<and>
               rx_status (rx_ring s' ! rx_next s) = 0 \<and>
               regs s' E1000_RDT = of_nat (rx_next s) \<and>
               kalloc_pool s' = kalloc_pool s2) \<and>
         e1000_init dev s0 = Inl Panic"
proof -
  let ?i = "rx_next s"
  let ?s' = "set_reg (s2\<lparr>rx_ring := (rx_ring s2)[?i := (rx_ring s2 ! ?i)\<lparr>rx_addr := a, rx_status := 0\<rparr>]\<rparr>)
               E1000_RDT (of_nat ?i)"
  have b: "e1000_recv_body dev s = Inr (Some ?s')"
    using d n k by (simp add: e1000_recv_body_def Let_def)
  have "rx_ring s2 = rx_ring s"
    using net_rx_device [OF n] kalloc_device [OF k] by simp
  then have "?i < length (rx_ring s2)"
    using l rx_next_less [of s] by simp
  then have "rx_addr (rx_ring ?s' ! ?i) = a" "rx_status (rx_ring ?s' ! ?i) = 0"
    by (simp_all add: set_reg_def)
  moreover have "regs ?s' E1000_RDT = of_nat ?i" "kalloc_pool ?s' = kalloc_pool s2"
    by (simp_all add: set_reg_def)
  ultimately show ?thesis
    using b e1000_init_panic [OF p] by blast
qed

theorem e1000_recv_unchecked_kalloc_witness:
  "rx_done dev_8254x (rx_ring (rx_frame 3) ! rx_next (rx_frame 3)) \<and>
   rx_eop dev_8254x (rx_ring (rx_frame 3) ! rx_next (rx_frame 3)) \<and>
   net_rx (rx_frame 3) 4096 60 = Inr (kfree (rx_frame 3) 4096) \<and>
   kalloc (kfree (rx_frame 3) 4096) = (0, kfree (rx_frame 3) 4096) \<and>
   length (rx_ring (rx_frame 3)) = RX_RING_SIZE \<and>
   kalloc_pool boot_state = [] \<and>
   (\<exists>s'. e1000_recv_body dev_8254x (rx_frame 3) = Inr (Some s') \<and>
         rx_addr (rx_ring s' ! 0) = 0 \<and> rx_status (rx_ring s' ! 0) = 0 \<and>
         regs s' E1000_RDT = 0 \<and> kalloc_pool s' = []) \<and>
   e1000_init dev_8254x boot_state = Inl Panic"
proof -
  have d: "rx_done dev_8254x (rx_ring (rx_frame 3) ! rx_next (rx_frame 3))"
      "rx_eop dev_8254x (rx_ring (rx_frame 3) ! rx_next (rx_frame 3))"
    by (simp_all add: rx_done_def rx_eop_def dev_8254x_def)
  have n: "net_rx (rx_frame 3) (rx_addr (rx_ring (rx_frame 3) ! rx_next (rx_frame 3)))
             (int (rx_length (rx_ring (rx_frame 3) ! rx_next (rx_frame 3))))
           = Inr (kfree (rx_frame 3) 4096)"
    using net_rx_frame [of 3] by simp
  have k: "kalloc (kfree (rx_frame 3) 4096) = (0, kfree (rx_frame 3) 4096)"
    by (simp add: kalloc_def kfree_def)
  have l: "length (rx_ring (rx_frame 3)) = RX_RING_SIZE"
    by (simp add: RX_RING_SIZE_def)
  have e: "kalloc_pool boot_state = []"
    by (simp add: boot_state_def)
  then have p: "length (kalloc_pool boot_state) < RX_RING_SIZE
              \<or> 0 \<in> set (take RX_RING_SIZE (kalloc_pool boot_state))"
    by (simp add: RX_RING_SIZE_def)
  have q: "kalloc_pool (kfree (rx_frame 3) 4096) = []"
    by (simp add: kfree_def)
  show ?thesis
    using e1000_recv_unchecked_kalloc [OF d n k l p] d net_rx_frame [of 3] k l e
    by (simp add: q)
qed


section \<open>Properties of the ARP handler\<close>




lemma mem_read_0 [simp]: "mem_read m a 0 = []"
  by (simp add: mem_read_def)

lemma length_mem_read [simp]: "length (mem_read m a n) = n"
  by (simp add: mem_read_def)










section \<open>Properties of the release of buffers\<close>

text \<open>
  What one call of \<open>net_rx\<close> does with its buffer: it passes it to \<^verbatim>\<open>kfree\<close> once and
  leaves the entries of every queue alone, or it does not release it and has stored it in
  one queue that was not full.
\<close>

lemma arp_rx_freed:
  "arp_rx s b = Inr s' \<Longrightarrow> freed s' = freed s @ [b] \<and> rings s' = rings s"
  by (auto simp: arp_rx_def Let_def kalloc_def kfree_def e1000_transmit_def
      split: if_splits prod.splits list.splits)

lemma ring_enqueue_cases:
  assumes "ring_enqueue r p = Inr (rc, r')"
  shows "(rc = 1 \<and> ring_full r \<and> r' = r\<lparr>dropped := dropped r + 1\<rparr>) \<or>
         (rc = 0 \<and> \<not> ring_full r)"
  using assms by (auto simp: ring_enqueue_def split: if_splits sum.splits)

lemma find_dport_Some:
  "find_dport rs port k = Some i \<Longrightarrow>
   k \<le> i \<and> i - k < length rs \<and> dport (rs ! (i - k)) = port \<and>
   (\<forall>j < i - k. dport (rs ! j) \<noteq> port)"
proof (induction rs arbitrary: k)
  case Nil
  then show ?case by simp
next
  case (Cons r rs)
  show ?case
  proof (cases "dport r = port")
    case True
    then show ?thesis using Cons.prems by simp
  next
    case False
    then have "find_dport rs port (Suc k) = Some i"
      using Cons.prems by simp
    then have ih: "Suc k \<le> i" "i - Suc k < length rs" "dport (rs ! (i - Suc k)) = port"
        "\<forall>j < i - Suc k. dport (rs ! j) \<noteq> port"
      using Cons.IH by blast+
    have e: "i - k = Suc (i - Suc k)" using ih(1) by simp
    have "dport ((r # rs) ! j) \<noteq> port" if "j < i - k" for j
      using that False ih(4) e by (cases j) auto
    then show ?thesis
      using ih e by simp
  qed
qed

lemma find_ring_Some:
  assumes "find_ring rs port = Some i"
  shows "i < length rs" and "dport (rs ! i) = port" and "\<forall>j < i. dport (rs ! j) \<noteq> port"
  using find_dport_Some [of rs port 0 i] assms by (simp_all add: find_ring_def)

lemma find_dport_None: "find_dport rs port k = None \<longleftrightarrow> (\<forall>r \<in> set rs. dport r \<noteq> port)"
  by (induction rs arbitrary: k) auto

lemma find_ring_None: "find_ring rs port = None \<longleftrightarrow> (\<forall>r \<in> set rs. dport r \<noteq> port)"
  by (simp add: find_ring_def find_dport_None)

lemma ip_rx_freed:
  assumes "ip_rx s b n = Inr s'"
  shows "(freed s' = freed s @ [b] \<and>
            (rings s' = rings s \<or>
             (\<exists>i. i < length (rings s) \<and> ring_full (rings s ! i) \<and>
                  rings s' = (rings s)[i := (rings s ! i)\<lparr>dropped := dropped (rings s ! i) + 1\<rparr>]))) \<or>
         (freed s' = freed s \<and>
            (\<exists>i r' sp. i < length (rings s) \<and> \<not> ring_full (rings s ! i) \<and>
                  ring_enqueue (rings s ! i) \<lparr>buf = b, sport = sp, len = n\<rparr> = Inr (0, r') \<and>
                  rings s' = (rings s)[i := r']))"
proof (cases "find_ring (rings s) (int (ntohs (load16 (mem s) (b + sizeof_eth + sizeof_ip + udp_dport))))")
  case None
  then have "s' = kfree (s\<lparr>seen_ip := True\<rparr>) b"
    using assms by (simp add: ip_rx_unbound)
  then show ?thesis by (simp add: kfree_def)
next
  case (Some i)
  let ?p = "\<lparr>buf = b, sport = int (ntohs (load16 (mem s) (b + sizeof_eth + sizeof_ip + udp_sport))), len = n\<rparr>"
  have i: "i < length (rings s)" by (rule find_ring_Some(1) [OF Some])
  obtain rc r' where e: "ring_enqueue (rings s ! i) ?p = Inr (rc, r')"
    using assms Some by (auto simp: ip_rx_def Let_def split: sum.splits)
  have s': "s' = (if rc \<noteq> 0 then kfree (s\<lparr>seen_ip := True, rings := (rings s)[i := r']\<rparr>) b
                 else s\<lparr>seen_ip := True, rings := (rings s)[i := r']\<rparr>)"
    using assms ip_rx_bound [OF Some e] by simp
  from ring_enqueue_cases [OF e] show ?thesis
  proof
    assume "rc = 1 \<and> ring_full (rings s ! i) \<and> r' = (rings s ! i)\<lparr>dropped := dropped (rings s ! i) + 1\<rparr>"
    then show ?thesis using s' i by (auto simp: kfree_def)
  next
    assume "rc = 0 \<and> \<not> ring_full (rings s ! i)"
    then show ?thesis using s' i e by auto
  qed
qed

lemma net_rx_freed:
  assumes "net_rx s b n = Inr s'"
  shows "(freed s' = freed s @ [b] \<and>
            (rings s' = rings s \<or>
             (\<exists>i. i < length (rings s) \<and> ring_full (rings s ! i) \<and>
                  rings s' = (rings s)[i := (rings s ! i)\<lparr>dropped := dropped (rings s ! i) + 1\<rparr>]))) \<or>
         (freed s' = freed s \<and>
            (\<exists>i r' sp. i < length (rings s) \<and> \<not> ring_full (rings s ! i) \<and>
                  ring_enqueue (rings s ! i) \<lparr>buf = b, sport = sp, len = n\<rparr> = Inr (0, r') \<and>
                  rings s' = (rings s)[i := r']))"
proof -
  let ?ty = "ntohs (load16 (mem s) (b + eth_type))"
  show ?thesis
  proof (cases "sizeof_eth + sizeof_arp \<le> to_uint64 n \<and> ?ty = ETHTYPE_ARP")
    case True
    then have "net_rx s b n = arp_rx s b"
      by (simp add: net_rx_def Let_def)
    then have "arp_rx s b = Inr s'" using assms by simp
    then show ?thesis using arp_rx_freed by blast
  next
    case arp: False
    show ?thesis
    proof (cases "sizeof_eth + sizeof_ip \<le> to_uint64 n \<and> ?ty = ETHTYPE_IP")
      case True
      then have "net_rx s b n = ip_rx s b n"
        using arp by (auto simp: net_rx_def Let_def)
      then have "ip_rx s b n = Inr s'" using assms by simp
      then show ?thesis by (rule ip_rx_freed)
    next
      case False
      then have "net_rx s b n = Inr (kfree s b)"
        using arp by (auto simp: net_rx_def Let_def)
      then have "s' = kfree s b" using assms by simp
      then show ?thesis by (simp add: kfree_def)
    qed
  qed
qed

section \<open>Properties of recv\<close>

lemma sys_recv_unbound:
  "find_ring (rings s) port = None \<Longrightarrow>
   sys_recv co s u port sa spa ba maxlen = Recv_Return (- 1) s u"
  by (simp add: sys_recv_def)

lemma sys_recv_sleep:
  "find_ring (rings s) port = Some i \<Longrightarrow> ring_empty (rings s ! i) \<Longrightarrow>
   sys_recv co s u port sa spa ba maxlen = Recv_Sleep"
  by (simp add: sys_recv_def)

lemma sys_recv_dequeued:
  assumes "find_ring (rings s) port = Some i" and "\<not> ring_empty (rings s ! i)"
    and "ring_dequeue (rings s ! i) = Inr (Some p, r')"
  shows "sys_recv co s u port sa spa ba maxlen =
         Recv_Return (word_of_int (min maxlen (recv_udp_len (mem s) (buf p))))
           (kfree (s\<lparr>rings := (rings s)[i := r']\<rparr>) (buf p))
           (snd (co (snd (co (snd (co u spa (le_bytes 2 (sport p))))
                          sa (le_bytes 4 (int (ntohl (load32 (mem s) (buf p + sizeof_eth + ip_src)))))))
                    ba (mem_read (mem s) (recv_udp (mem s) (buf p) + sizeof_udp)
                          (to_uint64 (min maxlen (recv_udp_len (mem s) (buf p)))))))"
proof -
  have m: "(if recv_udp_len (mem s) (buf p) < maxlen then recv_udp_len (mem s) (buf p) else maxlen)
         = min maxlen (recv_udp_len (mem s) (buf p))"
    by (simp add: min_def)
  show ?thesis
    using assms
    by (simp add: sys_recv_def Let_def split_beta m [unfolded recv_udp_len_def recv_udp_def]
        recv_udp_len_def recv_udp_def)
qed


lemma hello_find: "find_ring (rings hello_state) 7000 = Some 0"
  by (simp add: hello_state_def find_ring_def hello_ring_def)

lemma hello_ring0: "rings hello_state ! 0 = hello_ring"
  by (simp add: hello_state_def)

lemma hello_nonempty: "\<not> ring_empty hello_ring"
  by (simp add: ring_empty_def hello_ring_def)

lemma hello_dequeue:
  "ring_dequeue hello_ring = Inr (Some \<lparr>buf = 4096, sport = 2000, len = 47\<rparr>, hello_ring\<lparr>read_c := 1\<rparr>)"
proof -
  have "ring_slot 0 = Inr 0"
    by (simp add: ring_slot_def ring_mod_def MAX_QUEUE_LEN_def)
  then show ?thesis
    by (simp add: ring_dequeue_def ring_empty_def hello_ring_def)
qed

lemma hello_len: "recv_udp_len (mem hello_state) 4096 = 5"
  by (simp add: recv_udp_len_def recv_udp_def ip_ihl_def hello_state_def hello_frame_def
      sizeof_eth_def sizeof_udp_def ip_vhl_def udp_ulen_def load16_def ntohs_def)

lemma sys_recv_oldest:
  assumes f: "find_ring (rings s) port = Some i" and ok: "ring_ok (rings s ! i)"
    and ne: "\<not> ring_empty (rings s ! i)"
  shows "\<exists>s' u'. sys_recv co s u port sa spa ba maxlen
           = Recv_Return
               (word_of_int (min maxlen (recv_udp_len (mem s) (buf (hd (ring_live (rings s ! i)))))))
               s' u' \<and>
         freed s' = freed s @ [buf (hd (ring_live (rings s ! i)))] \<and>
         ring_live (rings s' ! i) = tl (ring_live (rings s ! i))"
proof -
  let ?r' = "(rings s ! i)\<lparr>read_c := read_c (rings s ! i) + 1\<rparr>"
  note d = ring_dequeue_live [OF ok ne]
  have i: "i < length (rings s)"
    by (rule find_ring_Some(1) [OF f])
  show ?thesis
    using i by (simp add: sys_recv_dequeued [OF f ne d(1)] kfree_def d(3))
qed

text \<open>
  C8.  On a port for which \<open>find_ring\<close> finds no slot, \<open>sys_recv\<close> returns \<open>-1\<close> and changes
  nothing (\<open>sys_recv_unbound\<close>); on an empty queue it sleeps (\<open>sys_recv_sleep\<close>); otherwise
  it copies out the source port of the entry, the source address and the payload cut to
  the smaller of \<open>maxlen\<close> and the UDP length minus 8, releases the buffer and returns
  that count (\<open>sys_recv_dequeued\<close>; the entry is the oldest of the queue,
  \<open>sys_recv_oldest\<close>).  But a port that was never bound does not always
  fail: the \<open>dport\<close> of an unused slot is 0, so after boot, with no port bound, \<open>find_ring\<close>
  finds slot 0 for port 0 and \<open>sys_recv\<close> sleeps on its queue.
\<close>

theorem sys_recv_port_zero:
  "find_ring (rings boot_state) 0 = Some 0 \<and>
   sys_recv copyout_log boot_state [] 0 0 0 0 100 = Recv_Sleep"
proof -
  have f: "find_ring (rings boot_state) 0 = Some 0"
    by (simp add: rings_boot find_ring_def zero_ring_def)
  moreover have "ring_empty (rings boot_state ! 0)"
    by (simp add: rings_boot ring_empty_def zero_ring_def)
  ultimately show ?thesis
    by (simp add: sys_recv_sleep)
qed

text \<open>
  C10.  The three results of \<^verbatim>\<open>copyout\<close> are dropped.  Whatever \<^verbatim>\<open>copyout\<close> does and reports,
  for every packet that \<open>sys_recv\<close> dequeues it passes the buffer to \<^verbatim>\<open>kfree\<close> once and
  returns the payload length cut to \<open>maxlen\<close>, not an error.
\<close>

theorem sys_recv_ignores_copyout:
  assumes "find_ring (rings s) port = Some i" and "\<not> ring_empty (rings s ! i)"
    and "ring_dequeue (rings s ! i) = Inr (Some p, r')"
  shows "\<exists>s' u'. sys_recv co s u port sa spa ba maxlen
                   = Recv_Return (word_of_int (min maxlen (recv_udp_len (mem s) (buf p)))) s' u' \<and>
                 freed s' = freed s @ [buf p] \<and>
                 rings s' = (rings s)[i := r']"
  by (simp add: sys_recv_dequeued [OF assms] kfree_def)

theorem sys_recv_ignores_copyout_witness:
  "find_ring (rings hello_state) 7000 = Some 0 \<and>
   \<not> ring_empty (rings hello_state ! 0) \<and>
   ring_dequeue (rings hello_state ! 0)
     = Inr (Some \<lparr>buf = 4096, sport = 2000, len = 47\<rparr>, hello_ring\<lparr>read_c := 1\<rparr>) \<and>
   fst (copyout_fails () 0 []) = - 1 \<and>
   (\<exists>s' u'. sys_recv copyout_fails hello_state () 7000 0 0 0 100 = Recv_Return 5 s' u' \<and>
            freed s' = [4096] \<and>
            rings s' = (rings hello_state)[0 := hello_ring\<lparr>read_c := 1\<rparr>])"
proof -
  have f: "find_ring (rings hello_state) 7000 = Some 0" by (rule hello_find)
  have n: "\<not> ring_empty (rings hello_state ! 0)"
    by (simp add: hello_ring0 hello_nonempty)
  have d: "ring_dequeue (rings hello_state ! 0)
     = Inr (Some \<lparr>buf = 4096, sport = 2000, len = 47\<rparr>, hello_ring\<lparr>read_c := 1\<rparr>)"
    by (simp add: hello_ring0 hello_dequeue)
  have e: "freed hello_state = []"
    by (simp add: hello_state_def boot_state_def)
  show ?thesis
    using sys_recv_ignores_copyout [OF f n d, of copyout_fails "()" 0 0 0 100] f n d
    by (simp add: hello_len e copyout_fails_def)
qed



end
